theory Spec2Isabelle
  imports Main "HOL-Library.Word" "HOL-Library.Sublist"
begin

unbundle bit_operations_syntax

section \<open>Data model of \<^verbatim>\<open>trie.c\<close>\<close>

text \<open>
  A key is a NUL-terminated C string; it is modelled by the list of its bytes before the
  terminator. A value is an opaque \<^verbatim>\<open>void *\<close>: an address, or \<open>None\<close> for the NULL
  pointer. A \<^verbatim>\<open>DeallocHandler\<close> is a function pointer or NULL; what it does to a value is
  outside the trie, so a handler is modelled by whether it is present, and every function
  that may call it returns the list of the values it was called on, in call order.
\<close>

type_synonym TRIECHAR = char
type_synonym TRIEVALUE = "nat option"
type_synonym DeallocHandler = bool

record TrieItem =
  key :: "TRIECHAR list option"
  val :: TRIEVALUE
  keylen :: nat

text \<open>
  \<^verbatim>\<open>struct TrieNode\<close>. The \<^verbatim>\<open>child\<close> pointer and the \<^verbatim>\<open>sibling\<close> chain that starts there
  are the list \<open>child\<close> (first child first); \<^verbatim>\<open>parent\<close> is the node that holds the list.
\<close>

datatype TrieNode =
  TrieNode (item: TrieItem) (child: "TrieNode list") (ch: TRIECHAR) (flags: int)

text \<open>
  \<^verbatim>\<open>struct TrieRoot\<close>: the fields of a node followed by the counters. The three \<^verbatim>\<open>size_t\<close>
  counters are 64-bit words (they wrap); \<^verbatim>\<open>state_id\<close> is a \<^verbatim>\<open>long long\<close>, whose overflow
  is undefined in C, and is modelled by an unbounded integer. \<^verbatim>\<open>dirty_iter\<close> holds the
  address of an iterator or NULL.
\<close>

record TrieRoot =
  root_node :: TrieNode
  num_nodes :: "64 word"
  num_items :: "64 word"
  memsize :: "64 word"
  state_id :: int
  dirty_iter :: "nat option"

text \<open>
  A \<^verbatim>\<open>TrieNode *\<close> into a store is modelled by the position of the node: the list of the
  indices taken in the sibling lists from the root down. \<open>node_at\<close> reads through such a
  pointer; \<open>None\<close> is a pointer that designates no node.
\<close>

type_synonym node_ptr = "nat list"

fun node_at :: "TrieNode \<Rightarrow> node_ptr \<Rightarrow> TrieNode option" where
  "node_at n [] = Some n"
| "node_at n (i # p) = (if i < length (child n) then node_at (child n ! i) p else None)"

fun node_upd :: "(TrieNode \<Rightarrow> TrieNode) \<Rightarrow> node_ptr \<Rightarrow> TrieNode \<Rightarrow> TrieNode" where
  "node_upd f [] n = f n"
| "node_upd f (i # p) n =
     (if i < length (child n)
      then TrieNode (item n) ((child n)[i := node_upd f p (child n ! i)]) (ch n) (flags n)
      else n)"

definition TRIE_EXPLORED :: int where
  "TRIE_EXPLORED = 1"

definition E_SUCCESS :: int where
  "E_SUCCESS = 0"

definition E_OUT_OF_SYNC :: int where
  "E_OUT_OF_SYNC = - 1"

definition E_REPLACED :: int where
  "E_REPLACED = - 2"

text \<open>\<^verbatim>\<open>sizeof(struct TrieNode)\<close> and \<^verbatim>\<open>sizeof(struct TrieRoot)\<close> on an LP64 target.\<close>

definition sizeof_TrieNode :: "64 word" where
  "sizeof_TrieNode = 56"

definition sizeof_TrieRoot :: "64 word" where
  "sizeof_TrieRoot = 96"

section \<open>Nodes and items\<close>

definition trieitem_free :: "TrieItem \<Rightarrow> DeallocHandler \<Rightarrow> TrieItem \<times> TRIEVALUE list" where
  "trieitem_free it dealloc =
     (if val it \<noteq> None \<and> dealloc
      then (\<lparr>key = None, val = None, keylen = 0\<rparr>, [val it])
      else (\<lparr>key = None, val = val it, keylen = 0\<rparr>, []))"

definition trienode_new ::
  "TRIECHAR list option \<Rightarrow> TRIEVALUE \<Rightarrow> nat \<Rightarrow> TrieNode list \<Rightarrow> TRIECHAR \<Rightarrow> int \<Rightarrow> TrieNode" where
  "trienode_new k v kl cs c f = TrieNode \<lparr>key = k, val = v, keylen = kl\<rparr> cs c f"

definition trienode_free :: "TrieNode \<Rightarrow> DeallocHandler \<Rightarrow> TRIEVALUE list" where
  "trienode_free n dealloc = snd (trieitem_free (item n) dealloc)"

text \<open>
  \<^verbatim>\<open>trienode_get_child\<close> walks the sibling chain to the first child labelled \<open>c\<close>; the
  result is that child's index in the chain, \<open>None\<close> for NULL.
\<close>

fun find_child :: "TrieNode list \<Rightarrow> TRIECHAR \<Rightarrow> nat option" where
  "find_child [] c = None"
| "find_child (x # xs) c = (if ch x = c then Some 0 else map_option Suc (find_child xs c))"

definition trienode_get_child :: "TrieNode \<Rightarrow> TRIECHAR \<Rightarrow> nat option" where
  "trienode_get_child n c = find_child (child n) c"

text \<open>
  \<^verbatim>\<open>trienode_remove_child\<close>: the first child labelled \<open>c\<close> is unlinked and freed when it has
  no children itself.
\<close>

definition trienode_remove_child ::
  "TrieNode \<Rightarrow> TRIECHAR \<Rightarrow> DeallocHandler \<Rightarrow> TrieNode \<times> TRIEVALUE list" where
  "trienode_remove_child n c dealloc =
     (case find_child (child n) c of
        None \<Rightarrow> (n, [])
      | Some i \<Rightarrow>
          if child (child n ! i) = []
          then (TrieNode (item n) (take i (child n) @ drop (Suc i) (child n)) (ch n) (flags n),
                trienode_free (child n ! i) dealloc)
          else (n, []))"

section \<open>The store\<close>

definition trie_new :: TrieRoot where
  "trie_new =
     \<lparr>root_node = TrieNode \<lparr>key = None, val = None, keylen = 0\<rparr> [] (CHR 0x00) 0,
      num_nodes = 0, num_items = 0, memsize = sizeof_TrieRoot, state_id = 0,
      dirty_iter = None\<rparr>"

fun get_node_from :: "TrieNode \<Rightarrow> TRIECHAR list \<Rightarrow> node_ptr option" where
  "get_node_from n [] = Some []"
| "get_node_from n (c # cs) =
     (case trienode_get_child n c of
        None \<Rightarrow> None
      | Some i \<Rightarrow> map_option ((#) i) (get_node_from (child n ! i) cs))"

definition trie_get_node :: "TrieRoot option \<Rightarrow> TRIECHAR list \<Rightarrow> node_ptr option" where
  "trie_get_node root k =
     (case root of None \<Rightarrow> None | Some r \<Rightarrow> get_node_from (root_node r) k)"

text \<open>
  The lookups read through the pointer \<^verbatim>\<open>trie_get_node\<close> returns. \<open>deref\<close> does that for
  a store; a pointer that designates no node reads as \<open>None\<close>.
\<close>

definition deref :: "TrieRoot option \<Rightarrow> node_ptr option \<Rightarrow> TrieNode option" where
  "deref root p =
     (case (root, p) of (Some r, Some q) \<Rightarrow> node_at (root_node r) q | _ \<Rightarrow> None)"

definition trie_has_key :: "TrieRoot option \<Rightarrow> TRIECHAR list \<Rightarrow> bool" where
  "trie_has_key root k =
     (case deref root (trie_get_node root k) of
        None \<Rightarrow> False
      | Some n \<Rightarrow> key (item n) \<noteq> None)"

definition trie_has_node :: "TrieRoot option \<Rightarrow> TRIECHAR list \<Rightarrow> bool" where
  "trie_has_node root k = (trie_get_node root k \<noteq> None)"

definition trie_get_item :: "TrieRoot option \<Rightarrow> TRIECHAR list \<Rightarrow> TrieItem option" where
  "trie_get_item root k =
     (case deref root (trie_get_node root k) of
        None \<Rightarrow> None
      | Some n \<Rightarrow> if key (item n) = None then None else Some (item n))"

definition trie_num_nodes :: "TrieRoot option \<Rightarrow> 64 word" where
  "trie_num_nodes root = (case root of None \<Rightarrow> - 1 | Some r \<Rightarrow> num_nodes r)"

definition trie_num_items :: "TrieRoot option \<Rightarrow> 64 word" where
  "trie_num_items root = (case root of None \<Rightarrow> - 1 | Some r \<Rightarrow> num_items r)"

text \<open>
  \<^verbatim>\<open>trie_set_item\<close>. The \<^verbatim>\<open>for\<close> loop walks down from the root and creates the missing
  nodes, each prepended to its parent's sibling list; \<open>set_walk\<close> is that loop as a
  recursion on the key, carried down into the subtree the loop's \<^verbatim>\<open>node\<close> points at. It
  returns the subtree with the terminal node's item replaced, the number of nodes created
  (the increments of \<^verbatim>\<open>num_nodes\<close>) and the terminal node's item as the loop left it.
\<close>

fun set_walk :: "TrieNode \<Rightarrow> TRIECHAR list \<Rightarrow> TrieItem \<Rightarrow> TrieNode \<times> nat \<times> TrieItem" where
  "set_walk n [] new = (TrieNode new (child n) (ch n) (flags n), 0, item n)"
| "set_walk n (c # cs) new =
     (case trienode_get_child n c of
        None \<Rightarrow>
          (case set_walk (trienode_new None None 0 [] c 0) cs new of
             (m, created, old) \<Rightarrow>
               (TrieNode (item n) (m # child n) (ch n) (flags n), Suc created, old))
      | Some i \<Rightarrow>
          (case set_walk (child n ! i) cs new of
             (m, created, old) \<Rightarrow>
               (TrieNode (item n) ((child n)[i := m]) (ch n) (flags n), created, old)))"

definition trie_set_item ::
  "TrieRoot option \<Rightarrow> TRIECHAR list option \<Rightarrow> TRIEVALUE \<Rightarrow> DeallocHandler
     \<Rightarrow> int \<times> TrieRoot option \<times> TRIEVALUE list" where
  "trie_set_item root kp v dealloc =
     (case (root, kp) of
        (Some r, Some k) \<Rightarrow>
          (case set_walk (root_node r) k \<lparr>key = Some k, val = v, keylen = length k\<rparr> of
             (n, created, old) \<Rightarrow>
               let r1 = r\<lparr>root_node := n,
                          num_nodes := num_nodes r + of_nat created,
                          memsize := memsize r + of_nat created * sizeof_TrieNode\<rparr>;
                   r2 = (if key old = None
                         then r1\<lparr>num_items := num_items r1 + 1, state_id := state_id r1 + 1\<rparr>
                         else r1\<lparr>memsize := memsize r1 - (of_nat (keylen old) + 1)\<rparr>);
                   freed = (if key old = None then [] else snd (trieitem_free old dealloc))
               in (0, Some (r2\<lparr>memsize := memsize r2 + (of_nat (length k) + 1)\<rparr>), freed))
      | _ \<Rightarrow> (- 1, root, []))"

text \<open>
  \<^verbatim>\<open>trie_del_item\<close>. \<open>del_walk\<close> finds the node as \<^verbatim>\<open>trie_get_node\<close> does and frees its
  item; \<open>None\<close> is the early \<^verbatim>\<open>return -1\<close>. The \<^verbatim>\<open>while\<close> loop then climbs through the
  \<^verbatim>\<open>parent\<close> pointers, which is the way back up the recursion: on return from the child
  \<open>m\<close> the loop condition is evaluated for \<open>m\<close>, and \<^verbatim>\<open>trienode_remove_child\<close> is applied to
  the parent. A node that keeps a child fails the condition, so the loop's stop at the
  first node kept and the test at every level agree. The result carries the number of
  nodes removed and the values handed to the handler.
\<close>

fun del_walk ::
  "TrieNode \<Rightarrow> TRIECHAR list \<Rightarrow> DeallocHandler
     \<Rightarrow> (TrieNode \<times> nat \<times> TrieItem \<times> TRIEVALUE list) option" where
  "del_walk n [] dealloc =
     (if key (item n) = None then None
      else Some (TrieNode (fst (trieitem_free (item n) dealloc)) (child n) (ch n) (flags n),
                 0, item n, snd (trieitem_free (item n) dealloc)))"
| "del_walk n (c # cs) dealloc =
     (case trienode_get_child n c of
        None \<Rightarrow> None
      | Some i \<Rightarrow>
          (case del_walk (child n ! i) cs dealloc of
             None \<Rightarrow> None
           | Some (m, removed, old, freed) \<Rightarrow>
               let n1 = TrieNode (item n) ((child n)[i := m]) (ch n) (flags n)
               in if child m = [] \<and> key (item m) = None
                  then (case trienode_remove_child n1 (ch m) dealloc of
                          (n2, freed2) \<Rightarrow> Some (n2, Suc removed, old, freed @ freed2))
                  else Some (n1, removed, old, freed)))"

definition trie_del_item ::
  "TrieRoot option \<Rightarrow> TRIECHAR list option \<Rightarrow> DeallocHandler
     \<Rightarrow> int \<times> TrieRoot option \<times> TRIEVALUE list" where
  "trie_del_item root kp dealloc =
     (case (root, kp) of
        (Some r, Some k) \<Rightarrow>
          (case del_walk (root_node r) k dealloc of
             None \<Rightarrow> (- 1, root, [])
           | Some (n, removed, old, freed) \<Rightarrow>
               (0,
                Some (r\<lparr>root_node := n,
                        memsize := memsize r - (of_nat (keylen old) + 1)
                                     - of_nat removed * sizeof_TrieNode,
                        num_items := num_items r - 1,
                        num_nodes := num_nodes r - of_nat removed,
                        state_id := state_id r + 1\<rparr>),
                freed))
      | _ \<Rightarrow> (- 1, root, []))"

section \<open>Iterators\<close>

text \<open>
  \<^verbatim>\<open>struct TrieIterState\<close>, \<^verbatim>\<open>struct TrieSearchResult\<close> and \<^verbatim>\<open>struct TrieIter\<close>. A search
  result points at the items of two nodes; it is modelled by the pointers to these nodes
  (\<open>None\<close> for NULL). The state array of an iterator is the list \<open>states\<close> of its filled
  slots, \<^verbatim>\<open>fill - 1\<close> first, with \<open>capacity\<close> for \<^verbatim>\<open>tail - head\<close>. \<open>self\<close> is the address
  of the iterator object, which \<^verbatim>\<open>dirty_iter\<close> is compared with. The store an iterator
  belongs to (\<^verbatim>\<open>it->root\<close>) is passed to every function next to the iterator.
\<close>

record TrieIterState =
  s_node :: node_ptr
  s_query :: node_ptr
  s_hd :: int
  s_depth :: int

record TrieSearchResult =
  r_query :: "node_ptr option"
  r_target :: "node_ptr option"
  r_hd :: int

datatype TrieIterNextFunc = NEXT_suffixes | NEXT_neighbors | NEXT_hammingpairs

record TrieIter =
  self :: nat
  states :: "TrieIterState list"
  capacity :: nat
  maxhd :: int
  target_depth :: int
  len_query :: int
  is_dirty :: bool
  trie_state_id :: int
  errcode :: int
  stack :: "node_ptr list"
  next_func :: TrieIterNextFunc

definition trieiter_push_state ::
  "TrieIter \<Rightarrow> node_ptr \<Rightarrow> node_ptr \<Rightarrow> int \<Rightarrow> int \<Rightarrow> TrieIter" where
  "trieiter_push_state it nd q h d =
     it\<lparr>states := \<lparr>s_node = nd, s_query = q, s_hd = h, s_depth = d\<rparr> # states it,
        capacity := (if length (states it) = capacity it then 2 * capacity it
                     else capacity it)\<rparr>"

definition trieiter_pop_state :: "TrieIter \<Rightarrow> (TrieIterState \<times> TrieIter) option" where
  "trieiter_pop_state it =
     (case states it of [] \<Rightarrow> None | s # rest \<Rightarrow> Some (s, it\<lparr>states := rest\<rparr>))"

text \<open>
  \<^verbatim>\<open>trie_reset\<close> clears the flags of a node, of its children and of its siblings; called
  on the root, which has no sibling, it is the map over the sibling lists below.
\<close>

fun trie_reset :: "TrieNode \<Rightarrow> TrieNode" where
  "trie_reset (TrieNode it cs c f) = TrieNode it (map trie_reset cs) c 0"

definition trieiter_new ::
  "TrieRoot \<Rightarrow> nat \<Rightarrow> int \<Rightarrow> int \<Rightarrow> int \<Rightarrow> int \<Rightarrow> node_ptr list \<Rightarrow> TrieIterNextFunc \<Rightarrow> bool
     \<Rightarrow> TrieIter option \<times> TrieRoot" where
  "trieiter_new r addr num_states mh td lq stk nxt dirty =
     (if num_states < 1 \<or> mh < 0 \<or> td < 0 then (None, r)
      else
        (Some \<lparr>self = addr, states = [], capacity = nat num_states, maxhd = mh,
               target_depth = td, len_query = lq, is_dirty = dirty,
               trie_state_id = state_id r, errcode = E_SUCCESS, stack = stk,
               next_func = nxt\<rparr>,
         if dirty
         then (if dirty_iter r \<noteq> None then r\<lparr>root_node := trie_reset (root_node r)\<rparr> else r)
                \<lparr>dirty_iter := Some addr\<rparr>
         else r))"

definition trieiter_errcode :: "TrieIter \<Rightarrow> int" where
  "trieiter_errcode it = errcode it"

definition trieiter_len_query :: "TrieIter \<Rightarrow> int" where
  "trieiter_len_query it = len_query it"

definition trieiter_free :: "TrieRoot \<Rightarrow> TrieIter \<Rightarrow> TrieRoot" where
  "trieiter_free r it =
     (if dirty_iter r = Some (self it)
      then r\<lparr>root_node := trie_reset (root_node r), dirty_iter := None\<rparr>
      else r)"

definition triesearchresult_new ::
  "node_ptr option \<Rightarrow> node_ptr option \<Rightarrow> int \<Rightarrow> TrieSearchResult" where
  "triesearchresult_new q t h = \<lparr>r_query = q, r_target = t, r_hd = h\<rparr>"

text \<open>
  The byte \<^verbatim>\<open>*(query->item.key + depth)\<close>: a byte of the key, or its terminator; \<open>None\<close>
  when the query pointer designates no node, the node has no key, or the read is outside
  the key buffer.
\<close>

definition query_byte :: "TrieRoot \<Rightarrow> node_ptr \<Rightarrow> int \<Rightarrow> TRIECHAR option" where
  "query_byte r q d =
     (case node_at (root_node r) q of
        None \<Rightarrow> None
      | Some qn \<Rightarrow>
          (case key (item qn) of
             None \<Rightarrow> None
           | Some k \<Rightarrow>
               if 0 \<le> d \<and> nat d < length k then Some (k ! nat d)
               else if d = int (length k) then Some (CHR 0x00)
               else None))"

text \<open>
  The \<^verbatim>\<open>for\<close> loops over the children of a node: the loop variable \<^verbatim>\<open>child\<close> is the
  remaining sibling chain together with the index of its first node.
\<close>

fun suffixes_push_children ::
  "TrieIter \<Rightarrow> TrieIterState \<Rightarrow> TrieNode list \<Rightarrow> nat \<Rightarrow> TrieIter" where
  "suffixes_push_children it st [] i = it"
| "suffixes_push_children it st (c # cs) i =
     suffixes_push_children
       (trieiter_push_state it (s_node st @ [i]) (s_query st) 0 (s_depth st + 1)) st cs (Suc i)"

fun neighbors_push_children ::
  "TrieRoot \<Rightarrow> TrieIter \<Rightarrow> TrieIterState \<Rightarrow> TrieNode list \<Rightarrow> nat \<Rightarrow> TrieIter option" where
  "neighbors_push_children r it st [] i = Some it"
| "neighbors_push_children r it st (c # cs) i =
     (case query_byte r (s_query st) (s_depth st) of
        None \<Rightarrow> None
      | Some b \<Rightarrow>
          neighbors_push_children r
            (if ch c = b
             then trieiter_push_state it (s_node st @ [i]) (s_query st) (s_hd st) (s_depth st + 1)
             else if s_hd st < maxhd it
             then trieiter_push_state it (s_node st @ [i]) (s_query st) (s_hd st + 1)
                    (s_depth st + 1)
             else it)
            st cs (Suc i))"

fun hammingpairs_push_children ::
  "TrieRoot \<Rightarrow> TrieIter \<Rightarrow> TrieIterState \<Rightarrow> TrieNode list \<Rightarrow> nat \<Rightarrow> int \<Rightarrow> int
     \<Rightarrow> (TrieIter \<times> int \<times> int) option" where
  "hammingpairs_push_children r it st [] i n_children n_explored =
     Some (it, n_children, n_explored)"
| "hammingpairs_push_children r it st (c # cs) i n_children n_explored =
     (if flags c AND TRIE_EXPLORED = TRIE_EXPLORED
      then hammingpairs_push_children r it st cs (Suc i) (n_children + 1) (n_explored + 1)
      else
        (case query_byte r (s_query st) (s_depth st) of
           None \<Rightarrow> None
         | Some b \<Rightarrow>
             hammingpairs_push_children r
               (if ch c = b
                then trieiter_push_state it (s_node st @ [i]) (s_query st) (s_hd st)
                       (s_depth st + 1)
                else if s_hd st < maxhd it
                then trieiter_push_state it (s_node st @ [i]) (s_query st) (s_hd st + 1)
                       (s_depth st + 1)
                else it)
               st cs (Suc i) (n_children + 1) n_explored))"

definition set_explored :: "TrieNode \<Rightarrow> TrieNode" where
  "set_explored n = TrieNode (item n) (child n) (ch n) (flags n OR TRIE_EXPLORED)"

text \<open>
  The measure of the traversal loops: the nodes below the states on the state stack.
\<close>

fun node_count :: "TrieNode \<Rightarrow> nat" where
  "node_count (TrieNode it cs c f) = Suc (sum_list (map node_count cs))"

definition state_weight :: "TrieNode \<Rightarrow> TrieIterState \<Rightarrow> nat" where
  "state_weight n s = (case node_at n (s_node s) of None \<Rightarrow> 0 | Some m \<Rightarrow> node_count m)"

definition states_weight :: "TrieRoot \<Rightarrow> TrieIter \<Rightarrow> nat" where
  "states_weight r it = sum_list (map (state_weight (root_node r)) (states it))"

subsection \<open>Facts for the termination of the traversal loops\<close>

lemma node_at_append:
  "node_at n (p @ q) = (case node_at n p of None \<Rightarrow> None | Some m \<Rightarrow> node_at m q)"
  by (induction p arbitrary: n) auto

lemma node_count_pos: "0 < node_count n"
  by (cases n) simp

lemma node_count_child: "node_count n = Suc (sum_list (map node_count (child n)))"
  by (cases n) simp

lemma states_push [simp]:
  "states (trieiter_push_state it nd q h d) =
     \<lparr>s_node = nd, s_query = q, s_hd = h, s_depth = d\<rparr> # states it"
  by (simp add: trieiter_push_state_def)

lemma stack_push [simp]: "stack (trieiter_push_state it nd q h d) = stack it"
  by (simp add: trieiter_push_state_def)

lemma states_weight_push:
  "states_weight r (trieiter_push_state it nd q h d) =
     (case node_at (root_node r) nd of None \<Rightarrow> 0 | Some m \<Rightarrow> node_count m) + states_weight r it"
  by (simp add: states_weight_def state_weight_def)

lemma drop_eq_ConsD:
  assumes "c # cs = drop i xs"
  shows "i < length xs \<and> c = xs ! i \<and> cs = drop (Suc i) xs"
proof -
  have i: "i < length xs"
  proof (rule ccontr)
    assume "\<not> i < length xs"
    then have "drop i xs = []" by simp
    with assms show False by simp
  qed
  have "xs ! i # drop (Suc i) xs = c # cs"
    using Cons_nth_drop_Suc[OF i] assms by simp
  then show ?thesis using i by simp
qed

lemma suffixes_push_children_weight:
  "node_at (root_node r) (s_node st) = Some n \<Longrightarrow> cs = drop i (child n) \<Longrightarrow>
   states_weight r (suffixes_push_children it st cs i) =
     states_weight r it + sum_list (map node_count cs)"
proof (induction cs arbitrary: it i)
  case Nil
  then show ?case by simp
next
  case (Cons c cs)
  from drop_eq_ConsD[OF Cons.prems(2)]
  have i: "i < length (child n)" and c: "c = child n ! i"
    and cs: "cs = drop (Suc i) (child n)" by simp_all
  show ?case
    using Cons.IH[OF Cons.prems(1) cs] Cons.prems(1) i c
    by (simp add: states_weight_push node_at_append)
qed

lemma neighbors_push_children_weight:
  "node_at (root_node r) (s_node st) = Some n \<Longrightarrow> cs = drop i (child n) \<Longrightarrow>
   neighbors_push_children r it st cs i = Some it' \<Longrightarrow>
   states_weight r it' \<le> states_weight r it + sum_list (map node_count cs)"
proof (induction cs arbitrary: it i)
  case Nil
  then show ?case by simp
next
  case (Cons c cs)
  from drop_eq_ConsD[OF Cons.prems(2)]
  have i: "i < length (child n)" and c: "c = child n ! i"
    and cs: "cs = drop (Suc i) (child n)" by simp_all
  from Cons.prems(3) obtain b where b: "query_byte r (s_query st) (s_depth st) = Some b"
    by (auto split: option.splits)
  let ?it1 = "(if ch c = b
             then trieiter_push_state it (s_node st @ [i]) (s_query st) (s_hd st) (s_depth st + 1)
             else if s_hd st < maxhd it
             then trieiter_push_state it (s_node st @ [i]) (s_query st) (s_hd st + 1)
                    (s_depth st + 1)
             else it)"
  from Cons.prems(3) b have "neighbors_push_children r ?it1 st cs (Suc i) = Some it'"
    by simp
  from Cons.IH[OF Cons.prems(1) cs this]
  have "states_weight r it' \<le> states_weight r ?it1 + sum_list (map node_count cs)" .
  moreover have "states_weight r ?it1 \<le> states_weight r it + node_count c"
    using Cons.prems(1) i c by (simp add: states_weight_push node_at_append)
  ultimately show ?case by simp
qed

lemma neighbors_push_children_stack:
  "neighbors_push_children r it st cs i = Some it' \<Longrightarrow> stack it' = stack it"
  by (induction cs arbitrary: it i) (auto split: option.splits if_splits)

lemma hammingpairs_push_children_weight:
  "node_at (root_node r) (s_node st) = Some n \<Longrightarrow> cs = drop i (child n) \<Longrightarrow>
   hammingpairs_push_children r it st cs i nc ne = Some (it', nc', ne') \<Longrightarrow>
   states_weight r it' \<le> states_weight r it + sum_list (map node_count cs)"
proof (induction cs arbitrary: it i nc ne)
  case Nil
  then show ?case by simp
next
  case (Cons c cs)
  from drop_eq_ConsD[OF Cons.prems(2)]
  have i: "i < length (child n)" and c: "c = child n ! i"
    and cs: "cs = drop (Suc i) (child n)" by simp_all
  show ?case
  proof (cases "flags c AND TRIE_EXPLORED = TRIE_EXPLORED")
    case True
    with Cons.prems(3)
    have "hammingpairs_push_children r it st cs (Suc i) (nc + 1) (ne + 1) = Some (it', nc', ne')"
      by simp
    from Cons.IH[OF Cons.prems(1) cs this] show ?thesis by simp
  next
    case False
    with Cons.prems(3) obtain b where b: "query_byte r (s_query st) (s_depth st) = Some b"
      by (auto split: option.splits)
    let ?it1 = "(if ch c = b
             then trieiter_push_state it (s_node st @ [i]) (s_query st) (s_hd st) (s_depth st + 1)
             else if s_hd st < maxhd it
             then trieiter_push_state it (s_node st @ [i]) (s_query st) (s_hd st + 1)
                    (s_depth st + 1)
             else it)"
    from Cons.prems(3) b False
    have "hammingpairs_push_children r ?it1 st cs (Suc i) (nc + 1) ne = Some (it', nc', ne')"
      by simp
    from Cons.IH[OF Cons.prems(1) cs this]
    have "states_weight r it' \<le> states_weight r ?it1 + sum_list (map node_count cs)" .
    moreover have "states_weight r ?it1 \<le> states_weight r it + node_count c"
      using Cons.prems(1) i c by (simp add: states_weight_push node_at_append)
    ultimately show ?thesis by simp
  qed
qed

lemma hammingpairs_push_children_stack:
  "hammingpairs_push_children r it st cs i nc ne = Some (it', nc', ne') \<Longrightarrow> stack it' = stack it"
  by (induction cs arbitrary: it i nc ne) (auto split: option.splits if_splits)

lemma suffixes_push_children_stack:
  "stack (suffixes_push_children it st cs i) = stack it"
  by (induction cs arbitrary: it i) auto

lemma node_count_upd:
  "(\<And>m. node_count (f m) = node_count m) \<Longrightarrow> node_count (node_upd f p n) = node_count n"
proof (induction p arbitrary: n)
  case Nil
  then show ?case by simp
next
  case (Cons i p)
  show ?case
  proof (cases "i < length (child n)")
    case True
    have "map node_count ((child n)[i := node_upd f p (child n ! i)]) = map node_count (child n)"
      using Cons.IH[OF Cons.prems] True by (simp add: map_update list_update_same_conv)
    then show ?thesis using True by (simp add: node_count_child[of n])
  next
    case False
    then show ?thesis by simp
  qed
qed

lemma node_at_upd:
  assumes f: "\<And>m. child (f m) = child m"
  shows "node_at (node_upd f p n) q =
     map_option (\<lambda>m. if take (length q) p = q then node_upd f (drop (length q) p) m else m)
       (node_at n q)"
proof (induction q arbitrary: p n)
  case Nil
  then show ?case by simp
next
  case (Cons j q)
  show ?case
  proof (cases p)
    case Nil
    then show ?thesis by (simp add: f option.map_ident)
  next
    case (Cons i p')
    then show ?thesis using Cons.IH[of p' "child n ! i"]
      by (auto simp: nth_list_update option.map_ident cong: if_cong)
  qed
qed

lemma node_count_set_explored [simp]: "node_count (set_explored m) = node_count m"
  by (cases m) (simp add: set_explored_def)

lemma child_set_explored [simp]: "child (set_explored m) = child m"
  by (simp add: set_explored_def)

lemma state_weight_set_explored:
  "state_weight (node_upd set_explored p n) s = state_weight n s"
  by (simp add: state_weight_def node_at_upd node_count_upd split: option.splits)

lemma states_weight_set_explored:
  "states_weight (r\<lparr>root_node := node_upd set_explored p (root_node r)\<rparr>) it = states_weight r it"
proof -
  have "state_weight (node_upd set_explored p (root_node r)) = state_weight (root_node r)"
    by (rule ext) (rule state_weight_set_explored)
  then show ?thesis by (simp add: states_weight_def)
qed

lemma states_weight_pop:
  "trieiter_pop_state it = Some (s, it1) \<Longrightarrow> node_at (root_node r) (s_node s) = Some n \<Longrightarrow>
   states_weight r it = node_count n + states_weight r it1"
  by (auto simp: trieiter_pop_state_def states_weight_def state_weight_def split: list.splits)

lemma stack_pop_state:
  "trieiter_pop_state it = Some (s, it1) \<Longrightarrow> stack it1 = stack it"
  by (auto simp: trieiter_pop_state_def split: list.splits)

subsection \<open>The three \<^verbatim>\<open>next\<close> functions\<close>

text \<open>
  Each \<^verbatim>\<open>while\<close> loop is a recursion on the iterator; a \<^verbatim>\<open>continue\<close> is the recursive call
  and a \<^verbatim>\<open>return\<close> ends it. The outer \<open>None\<close> is a read through a pointer that designates
  no node or outside a key buffer, which C leaves undefined; the inner one is the NULL
  result that ends an iteration.
\<close>

function trieiter_suffixes_next ::
  "TrieRoot \<Rightarrow> TrieIter \<Rightarrow> (TrieSearchResult option \<times> TrieIter) option" where
  "trieiter_suffixes_next r it =
     (case trieiter_pop_state it of
        None \<Rightarrow> Some (None, it)
      | Some (state, it1) \<Rightarrow>
          (case node_at (root_node r) (s_node state) of
             None \<Rightarrow> None
           | Some n \<Rightarrow>
               if key (item n) \<noteq> None
               then Some (Some (triesearchresult_new (Some (s_query state))
                                  (Some (s_node state)) 0),
                          suffixes_push_children it1 state (child n) 0)
               else trieiter_suffixes_next r (suffixes_push_children it1 state (child n) 0)))"
  by pat_completeness auto
termination
proof (relation "measure (\<lambda>(r, it). states_weight r it)", goal_cases)
  case 1
  show ?case by simp
next
  case (2 r it x state it1 n)
  from 2 have pop: "trieiter_pop_state it = Some (state, it1)" by simp
  show ?case
    using states_weight_pop[OF pop 2(3)]
      suffixes_push_children_weight[OF 2(3), of "child n" 0 it1]
    by (simp add: node_count_child[of n])
qed

function trieiter_neighbors_next ::
  "TrieRoot \<Rightarrow> TrieIter \<Rightarrow> (TrieSearchResult option \<times> TrieIter) option" where
  "trieiter_neighbors_next r it =
     (case trieiter_pop_state it of
        None \<Rightarrow> Some (None, it)
      | Some (state, it1) \<Rightarrow>
          (case node_at (root_node r) (s_node state) of
             None \<Rightarrow> None
           | Some n \<Rightarrow>
               if s_depth state = target_depth it1
               then (if key (item n) = None \<or> s_hd state = 0
                     then trieiter_neighbors_next r it1
                     else Some (Some (triesearchresult_new (Some (s_query state))
                                        (Some (s_node state)) (s_hd state)),
                                it1))
               else (case neighbors_push_children r it1 state (child n) 0 of
                       None \<Rightarrow> None
                     | Some it2 \<Rightarrow> trieiter_neighbors_next r it2)))"
  by pat_completeness auto
termination
proof (relation "measure (\<lambda>(r, it). states_weight r it)", goal_cases)
  case 1
  show ?case by simp
next
  case (2 r it x state it1 n)
  from 2 have pop: "trieiter_pop_state it = Some (state, it1)" by simp
  show ?case using states_weight_pop[OF pop 2(3)] node_count_pos[of n] by simp
next
  case (3 r it x state it1 n it2)
  from 3 have pop: "trieiter_pop_state it = Some (state, it1)" by simp
  show ?case
    using states_weight_pop[OF pop 3(3)]
      neighbors_push_children_weight[OF 3(3) _ 3(5)]
    by (simp add: node_count_child[of n])
qed

function trieiter_hammingpairs_next ::
  "TrieRoot \<Rightarrow> TrieIter \<Rightarrow> (TrieSearchResult option \<times> TrieRoot \<times> TrieIter) option" where
  "trieiter_hammingpairs_next r it =
     (case trieiter_pop_state it of
        None \<Rightarrow>
          (case stack it of
             [] \<Rightarrow> Some (None, r, it)
           | q # rest \<Rightarrow>
               (case node_at (root_node r) q of
                  None \<Rightarrow> None
                | Some qn \<Rightarrow>
                    trieiter_hammingpairs_next
                      (r\<lparr>root_node := node_upd set_explored q (root_node r)\<rparr>)
                      (trieiter_push_state (it\<lparr>stack := rest\<rparr>) [] q 0 0)))
      | Some (state, it1) \<Rightarrow>
          (case node_at (root_node r) (s_node state) of
             None \<Rightarrow> None
           | Some n \<Rightarrow>
               if s_depth state = target_depth it1
               then (if key (item n) = None
                     then trieiter_hammingpairs_next
                            (r\<lparr>root_node := node_upd set_explored (s_node state) (root_node r)\<rparr>)
                            it1
                     else Some (Some (triesearchresult_new (Some (s_query state))
                                        (Some (s_node state)) (s_hd state)),
                                r, it1))
               else (case hammingpairs_push_children r it1 state (child n) 0 0 0 of
                       None \<Rightarrow> None
                     | Some (it2, n_children, n_explored) \<Rightarrow>
                         trieiter_hammingpairs_next
                           (if n_children = n_explored
                            then r\<lparr>root_node :=
                                     node_upd set_explored (s_node state) (root_node r)\<rparr>
                            else r)
                           it2)))"
  by pat_completeness auto
termination
proof (relation "measures [\<lambda>(r, it). length (stack it), \<lambda>(r, it). states_weight r it]",
    goal_cases)
  case 1
  show ?case by simp
next
  case (2 r it q rest qn)
  then show ?case by simp
next
  case (3 r it x state it1 n)
  from 3 have pop: "trieiter_pop_state it = Some (state, it1)" by simp
  show ?case
    using states_weight_pop[OF pop 3(3)] node_count_pos[of n] stack_pop_state[OF pop]
    by (simp add: states_weight_set_explored)
next
  case (4 r it x state it1 n x2 it2 y n_children n_explored)
  from 4 have pop: "trieiter_pop_state it = Some (state, it1)" by simp
  from 4 have pc: "hammingpairs_push_children r it1 state (child n) 0 0 0
      = Some (it2, n_children, n_explored)" by simp
  show ?case
    using states_weight_pop[OF pop 4(3)] stack_pop_state[OF pop]
      hammingpairs_push_children_weight[OF 4(3) _ pc] hammingpairs_push_children_stack[OF pc]
    by (simp add: node_count_child[of n] states_weight_set_explored)
qed

definition trieiter_next ::
  "TrieRoot \<Rightarrow> TrieIter \<Rightarrow> (TrieSearchResult option \<times> TrieRoot \<times> TrieIter) option" where
  "trieiter_next r it =
     (if trie_state_id it \<noteq> state_id r then Some (None, r, it\<lparr>errcode := E_OUT_OF_SYNC\<rparr>)
      else if is_dirty it \<and> dirty_iter r \<noteq> Some (self it)
      then Some (None, r, it\<lparr>errcode := E_REPLACED\<rparr>)
      else
        (case next_func it of
           NEXT_suffixes \<Rightarrow>
             map_option (\<lambda>(res, it'). (res, r, it')) (trieiter_suffixes_next r it)
         | NEXT_neighbors \<Rightarrow>
             map_option (\<lambda>(res, it'). (res, r, it')) (trieiter_neighbors_next r it)
         | NEXT_hammingpairs \<Rightarrow> trieiter_hammingpairs_next r it))"

subsection \<open>The iterator factories\<close>

text \<open>
  \<open>addr\<close> is the address \<^verbatim>\<open>safe_malloc\<close> returns for the iterator object. The conversions
  of \<^verbatim>\<open>size_t\<close> lengths to \<^verbatim>\<open>int\<close> are the identity for keys shorter than \<open>2^31\<close> bytes.
\<close>

definition trieiter_suffixes ::
  "TrieRoot option \<Rightarrow> TRIECHAR list option \<Rightarrow> nat \<Rightarrow> TrieIter option \<times> TrieRoot option" where
  "trieiter_suffixes root kp addr =
     (case (root, kp) of
        (Some r, Some k) \<Rightarrow>
          (case trie_get_node root k of
             None \<Rightarrow> (None, root)
           | Some query \<Rightarrow>
               (case trieiter_new r addr 1 0 0 (int (length k)) [] NEXT_suffixes False of
                  (None, r') \<Rightarrow> (None, Some r')
                | (Some it, r') \<Rightarrow> (Some (trieiter_push_state it query query 0 0), Some r')))
      | _ \<Rightarrow> (None, root))"


text \<open>
  \<^verbatim>\<open>trie_find_all_strings\<close> pushes the item-bearing nodes \<open>depth\<close> levels below \<open>n\<close> on the
  target stack; \<open>p\<close> is the pointer to \<open>n\<close>.
\<close>

fun trie_find_all_strings :: "node_ptr \<Rightarrow> TrieNode \<Rightarrow> int \<Rightarrow> node_ptr list \<Rightarrow> node_ptr list"
  and find_all_siblings ::
    "node_ptr \<Rightarrow> TrieNode list \<Rightarrow> nat \<Rightarrow> int \<Rightarrow> node_ptr list \<Rightarrow> node_ptr list" where
  "trie_find_all_strings p (TrieNode it cs c f) depth targets =
     (if depth = 0 \<and> key it \<noteq> None then p # targets
      else if depth > 0 then find_all_siblings p cs 0 (depth - 1) targets
      else targets)"
| "find_all_siblings p [] i depth targets = targets"
| "find_all_siblings p (c # cs) i depth targets =
     find_all_siblings p cs (Suc i) depth (trie_find_all_strings (p @ [i]) c depth targets)"

definition trieiter_hammingpairs ::
  "TrieRoot option \<Rightarrow> int \<Rightarrow> int \<Rightarrow> nat \<Rightarrow> TrieIter option \<times> TrieRoot option" where
  "trieiter_hammingpairs root kl mh addr =
     (case root of
        None \<Rightarrow> (None, root)
      | Some r \<Rightarrow>
          if kl \<le> 0 then (None, root)
          else
            (case trieiter_new r addr 1 mh kl kl
                    (trie_find_all_strings [] (root_node r) kl []) NEXT_hammingpairs True of
               (it, r') \<Rightarrow> (it, Some r')))"

section \<open>Exhausting an iterator\<close>

text \<open>
  The equations of the three loops are applied by hand, never by the simplifier.
\<close>

declare trieiter_suffixes_next.simps [simp del]
declare trieiter_neighbors_next.simps [simp del]
declare trieiter_hammingpairs_next.simps [simp del]

lemma suffixes_next_decreases:
  "trieiter_suffixes_next r it = Some (res, it') \<Longrightarrow>
   stack it' = stack it \<and> states_weight r it' \<le> states_weight r it \<and>
   (res \<noteq> None \<longrightarrow> states_weight r it' < states_weight r it)"
proof (induction r it rule: trieiter_suffixes_next.induct)
  case (1 r it)
  show ?case
  proof (cases "trieiter_pop_state it")
    case None
    with "1.prems" show ?thesis by (simp add: trieiter_suffixes_next.simps[of r it])
  next
    case (Some a)
    obtain state it1 where a: "a = (state, it1)" by (cases a)
    with Some have pop: "trieiter_pop_state it = Some (state, it1)" by simp
    from "1.prems" pop obtain n where n: "node_at (root_node r) (s_node state) = Some n"
      by (auto simp: trieiter_suffixes_next.simps[of r it] split: option.splits)
    let ?it2 = "suffixes_push_children it1 state (child n) 0"
    have w: "states_weight r ?it2 < states_weight r it"
      using states_weight_pop[OF pop n] suffixes_push_children_weight[OF n, of "child n" 0 it1]
      by (simp add: node_count_child[of n])
    have s: "stack ?it2 = stack it"
      using stack_pop_state[OF pop] by (simp add: suffixes_push_children_stack)
    show ?thesis
    proof (cases "key (item n) = None")
      case True
      with "1.prems" pop n have "trieiter_suffixes_next r ?it2 = Some (res, it')"
        by (simp add: trieiter_suffixes_next.simps[of r it])
      from "1.IH"[OF pop refl n _ this] True w s show ?thesis by auto
    next
      case False
      with "1.prems" pop n have "it' = ?it2"
        by (simp add: trieiter_suffixes_next.simps[of r it])
      with w s show ?thesis by simp
    qed
  qed
qed


lemma neighbors_next_decreases:
  "trieiter_neighbors_next r it = Some (res, it') \<Longrightarrow>
   stack it' = stack it \<and> states_weight r it' \<le> states_weight r it \<and>
   (res \<noteq> None \<longrightarrow> states_weight r it' < states_weight r it)"
proof (induction r it rule: trieiter_neighbors_next.induct)
  case (1 r it)
  show ?case
  proof (cases "trieiter_pop_state it")
    case None
    with "1.prems" show ?thesis by (simp add: trieiter_neighbors_next.simps[of r it])
  next
    case (Some a)
    obtain state it1 where a: "a = (state, it1)" by (cases a)
    with Some have pop: "trieiter_pop_state it = Some (state, it1)" by simp
    from "1.prems" pop obtain n where n: "node_at (root_node r) (s_node state) = Some n"
      by (auto simp: trieiter_neighbors_next.simps[of r it] split: option.splits)
    have w1: "states_weight r it1 < states_weight r it"
      using states_weight_pop[OF pop n] node_count_pos[of n] by simp
    have s1: "stack it1 = stack it" by (rule stack_pop_state[OF pop])
    show ?thesis
    proof (cases "s_depth state = target_depth it1")
      case True
      show ?thesis
      proof (cases "key (item n) = None \<or> s_hd state = 0")
        case skip: True
        with "1.prems" pop n True have "trieiter_neighbors_next r it1 = Some (res, it')"
          by (simp add: trieiter_neighbors_next.simps[of r it])
        from "1.IH"(1)[OF pop refl n True skip this] w1 s1 show ?thesis by auto
      next
        case False
        with "1.prems" pop n True have "it' = it1"
          by (simp add: trieiter_neighbors_next.simps[of r it])
        with w1 s1 show ?thesis by simp
      qed
    next
      case False
      with "1.prems" pop n obtain it2 where
        pc: "neighbors_push_children r it1 state (child n) 0 = Some it2"
        and nx: "trieiter_neighbors_next r it2 = Some (res, it')"
        by (auto simp: trieiter_neighbors_next.simps[of r it] split: option.splits)
      have w2: "states_weight r it2 < states_weight r it"
        using states_weight_pop[OF pop n] neighbors_push_children_weight[OF n _ pc]
        by (simp add: node_count_child[of n])
      have s2: "stack it2 = stack it"
        using neighbors_push_children_stack[OF pc] s1 by simp
      from "1.IH"(2)[OF pop refl n False pc nx] w2 s2 show ?thesis by auto
    qed
  qed
qed

text \<open>
  The measure of \<^verbatim>\<open>trieiter_next\<close>: the targets still on the target stack, then the nodes
  below the state stack.
\<close>

definition iter_measure :: "TrieRoot \<times> TrieIter \<Rightarrow> nat \<times> nat" where
  "iter_measure = (\<lambda>(r, it). (length (stack it), states_weight r it))"

lemma hammingpairs_next_decreases:
  "trieiter_hammingpairs_next r it = Some (res, r', it') \<Longrightarrow>
   (iter_measure (r', it'), iter_measure (r, it)) \<in> (less_than <*lex*> less_than)\<^sup>= \<and>
   (res \<noteq> None \<longrightarrow>
      (iter_measure (r', it'), iter_measure (r, it)) \<in> less_than <*lex*> less_than)"
proof (induction r it rule: trieiter_hammingpairs_next.induct)
  case (1 r it)
  show ?case
  proof (cases "trieiter_pop_state it")
    case None
    show ?thesis
    proof (cases "stack it")
      case Nil
      with "1.prems" None show ?thesis
        by (simp add: trieiter_hammingpairs_next.simps[of r it])
    next
      case (Cons q rest)
      with "1.prems" None obtain qn where qn: "node_at (root_node r) q = Some qn"
        by (auto simp: trieiter_hammingpairs_next.simps[of r it] split: option.splits)
      let ?r1 = "r\<lparr>root_node := node_upd set_explored q (root_node r)\<rparr>"
      let ?it1 = "trieiter_push_state (it\<lparr>stack := rest\<rparr>) [] q 0 0"
      from "1.prems" None Cons qn
      have nx: "trieiter_hammingpairs_next ?r1 ?it1 = Some (res, r', it')"
        by (simp add: trieiter_hammingpairs_next.simps[of r it])
      have m: "(iter_measure (?r1, ?it1), iter_measure (r, it)) \<in> less_than <*lex*> less_than"
        using Cons by (simp add: iter_measure_def)
      from "1.IH"(1)[OF None Cons qn nx] m show ?thesis
        by (auto simp: iter_measure_def)
    qed
  next
    case (Some a)
    obtain state it1 where a: "a = (state, it1)" by (cases a)
    with Some have pop: "trieiter_pop_state it = Some (state, it1)" by simp
    from "1.prems" pop obtain n where n: "node_at (root_node r) (s_node state) = Some n"
      by (auto simp: trieiter_hammingpairs_next.simps[of r it] split: option.splits)
    let ?r1 = "r\<lparr>root_node := node_upd set_explored (s_node state) (root_node r)\<rparr>"
    have w1: "states_weight r it1 < states_weight r it"
      using states_weight_pop[OF pop n] node_count_pos[of n] by simp
    have s1: "stack it1 = stack it" by (rule stack_pop_state[OF pop])
    show ?thesis
    proof (cases "s_depth state = target_depth it1")
      case True
      show ?thesis
      proof (cases "key (item n) = None")
        case skip: True
        with "1.prems" pop n True
        have nx: "trieiter_hammingpairs_next ?r1 it1 = Some (res, r', it')"
          by (simp add: trieiter_hammingpairs_next.simps[of r it])
        from "1.IH"(2)[OF pop refl n True skip nx] w1 s1 show ?thesis
          by (auto simp: iter_measure_def states_weight_set_explored)
      next
        case False
        with "1.prems" pop n True have "it' = it1" "r' = r"
          by (simp_all add: trieiter_hammingpairs_next.simps[of r it])
        with w1 s1 show ?thesis by (simp add: iter_measure_def)
      qed
    next
      case False
      with "1.prems" pop n obtain it2 nc ne where
        pc: "hammingpairs_push_children r it1 state (child n) 0 0 0 = Some (it2, nc, ne)"
        and nx: "trieiter_hammingpairs_next (if nc = ne then ?r1 else r) it2 = Some (res, r', it')"
        by (auto simp: trieiter_hammingpairs_next.simps[of r it] split: option.splits)
      have w2: "states_weight r it2 < states_weight r it"
        using states_weight_pop[OF pop n] hammingpairs_push_children_weight[OF n _ pc]
        by (simp add: node_count_child[of n])
      have s2: "stack it2 = stack it"
        using hammingpairs_push_children_stack[OF pc] s1 by simp
      from "1.IH"(3)[OF pop refl n False pc refl refl nx] w2 s2 show ?thesis
        by (auto simp: iter_measure_def states_weight_set_explored split: if_splits)
    qed
  qed
qed

lemma trieiter_next_dispatch:
  assumes "trieiter_next r it = Some (Some res, r', it')"
  shows "(case next_func it of
            NEXT_suffixes \<Rightarrow>
              map_option (\<lambda>(res, it'). (res, r, it')) (trieiter_suffixes_next r it)
          | NEXT_neighbors \<Rightarrow>
              map_option (\<lambda>(res, it'). (res, r, it')) (trieiter_neighbors_next r it)
          | NEXT_hammingpairs \<Rightarrow> trieiter_hammingpairs_next r it) = Some (Some res, r', it')"
proof (cases "trie_state_id it \<noteq> state_id r")
  case True
  with assms show ?thesis unfolding trieiter_next_def by simp
next
  case False
  note sync = this
  show ?thesis
  proof (cases "is_dirty it \<and> dirty_iter r \<noteq> Some (self it)")
    case True
    with assms sync show ?thesis unfolding trieiter_next_def by simp
  next
    case False
    with assms sync show ?thesis unfolding trieiter_next_def by simp
  qed
qed

lemma trieiter_next_decreases:
  assumes "trieiter_next r it = Some (Some res, r', it')"
  shows "(iter_measure (r', it'), iter_measure (r, it)) \<in> less_than <*lex*> less_than"
proof (cases "next_func it")
  case NEXT_suffixes
  with trieiter_next_dispatch[OF assms]
  have "trieiter_suffixes_next r it = Some (Some res, it')" "r' = r"
    by auto
  with suffixes_next_decreases[of r it "Some res" it'] show ?thesis
    by (simp add: iter_measure_def)
next
  case NEXT_neighbors
  with trieiter_next_dispatch[OF assms]
  have "trieiter_neighbors_next r it = Some (Some res, it')" "r' = r"
    by auto
  with neighbors_next_decreases[of r it "Some res" it'] show ?thesis
    by (simp add: iter_measure_def)
next
  case NEXT_hammingpairs
  with trieiter_next_dispatch[OF assms]
  have "trieiter_hammingpairs_next r it = Some (Some res, r', it')"
    by simp
  with hammingpairs_next_decreases[of r it "Some res" r' it'] show ?thesis by simp
qed

text \<open>
  A consumer exhausts an iterator by calling \<^verbatim>\<open>trieiter_next\<close> until it returns NULL;
  \<open>trieiter_exhaust\<close> collects the results in the order they are returned, with the store
  and the iterator as the last call left them.
\<close>

function trieiter_exhaust ::
  "TrieRoot \<Rightarrow> TrieIter \<Rightarrow> (TrieSearchResult list \<times> TrieRoot \<times> TrieIter) option" where
  "trieiter_exhaust r it =
     (case trieiter_next r it of
        None \<Rightarrow> None
      | Some (None, r', it') \<Rightarrow> Some ([], r', it')
      | Some (Some res, r', it') \<Rightarrow>
          (case trieiter_exhaust r' it' of
             None \<Rightarrow> None
           | Some (rs, r'', it'') \<Rightarrow> Some (res # rs, r'', it'')))"
  by pat_completeness auto
termination
proof (relation "inv_image (less_than <*lex*> less_than) iter_measure", goal_cases)
  case 1
  show ?case by (intro wf_inv_image wf_lex_prod wf_less_than)
next
  case (2 r it x2 x1 x2a res r' it')
  then have "trieiter_next r it = Some (Some res, r', it')" by simp
  from trieiter_next_decreases[OF this] show ?case by simp
qed

section \<open>Lookups after \<^verbatim>\<open>trie_set_item\<close> and \<^verbatim>\<open>trie_del_item\<close>\<close>

text \<open>
  \<open>lookup_node\<close> is \<^verbatim>\<open>trie_get_node\<close> followed by the read through the pointer it
  returns: the node a key leads to.
\<close>

definition lookup_node :: "TrieNode \<Rightarrow> TRIECHAR list \<Rightarrow> TrieNode option" where
  "lookup_node n k = (case get_node_from n k of None \<Rightarrow> None | Some p \<Rightarrow> node_at n p)"

lemma find_child_SomeD:
  "find_child cs c = Some i \<Longrightarrow> i < length cs \<and> ch (cs ! i) = c \<and> (\<forall>j<i. ch (cs ! j) \<noteq> c)"
proof (induction cs arbitrary: i)
  case Nil
  then show ?case by simp
next
  case (Cons x xs)
  show ?case
  proof (cases "ch x = c")
    case True
    with Cons.prems show ?thesis by simp
  next
    case False
    with Cons.prems obtain j where j: "find_child xs c = Some j" "i = Suc j" by auto
    from Cons.IH[OF j(1)] False j(2) show ?thesis
      by (auto simp: less_Suc_eq_0_disj)
  qed
qed

lemma find_child_None: "find_child cs c = None \<longleftrightarrow> c \<notin> ch ` set cs"
  by (induction cs) auto

lemma lookup_node_Nil [simp]: "lookup_node n [] = Some n"
  by (simp add: lookup_node_def)

lemma lookup_node_Cons:
  "lookup_node n (c # cs) =
     (case find_child (child n) c of None \<Rightarrow> None | Some i \<Rightarrow> lookup_node (child n ! i) cs)"
  by (auto simp: lookup_node_def trienode_get_child_def dest: find_child_SomeD
      split: option.splits)

lemma trie_get_item_lookup:
  "trie_get_item (Some r) k =
     (case lookup_node (root_node r) k of
        None \<Rightarrow> None
      | Some n \<Rightarrow> if key (item n) = None then None else Some (item n))"
  by (simp add: trie_get_item_def deref_def trie_get_node_def lookup_node_def
      split: option.splits)

lemma trie_has_key_lookup:
  "trie_has_key (Some r) k =
     (case lookup_node (root_node r) k of None \<Rightarrow> False | Some n \<Rightarrow> key (item n) \<noteq> None)"
  by (simp add: trie_has_key_def deref_def trie_get_node_def lookup_node_def
      split: option.splits)

lemma find_child_update:
  "i < length cs \<Longrightarrow> ch m = ch (cs ! i) \<Longrightarrow> find_child (cs[i := m]) c = find_child cs c"
proof (induction cs arbitrary: i)
  case Nil
  then show ?case by simp
next
  case (Cons x xs)
  then show ?case by (cases i) auto
qed

lemma trienode_new_sel [simp]:
  "item (trienode_new k v kl cs c f) = \<lparr>key = k, val = v, keylen = kl\<rparr>"
  "child (trienode_new k v kl cs c f) = cs"
  "ch (trienode_new k v kl cs c f) = c"
  "flags (trienode_new k v kl cs c f) = f"
  by (simp_all add: trienode_new_def)

lemma set_walk_ch: "ch (fst (set_walk n k new)) = ch n"
  by (cases k) (auto split: option.splits prod.splits)

lemma set_walk_flags: "flags (fst (set_walk n k new)) = flags n"
  by (cases k) (auto split: option.splits prod.splits)

lemma lookup_fresh:
  "lookup_node (trienode_new None None 0 [] c 0) k =
     (if k = [] then Some (trienode_new None None 0 [] c 0) else None)"
  by (cases k) (simp_all add: lookup_node_Cons)

lemma set_walk_lookup_same:
  "\<exists>m. lookup_node (fst (set_walk n k new)) k = Some m \<and> item m = new"
proof (induction k arbitrary: n)
  case Nil
  then show ?case by simp
next
  case (Cons c cs)
  show ?case
  proof (cases "find_child (child n) c")
    case None
    obtain m cr old where sw: "set_walk (trienode_new None None 0 [] c 0) cs new = (m, cr, old)"
      by (cases "set_walk (trienode_new None None 0 [] c 0) cs new")
    have chm: "ch m = c" using set_walk_ch[of "trienode_new None None 0 [] c 0" cs new] sw
      by simp
    from Cons.IH[of "trienode_new None None 0 [] c 0"] sw None chm show ?thesis
      by (simp add: lookup_node_Cons trienode_get_child_def)
  next
    case (Some i)
    obtain m cr old where sw: "set_walk (child n ! i) cs new = (m, cr, old)"
      by (cases "set_walk (child n ! i) cs new")
    have chm: "ch m = ch (child n ! i)" using set_walk_ch[of "child n ! i" cs new] sw by simp
    from find_child_SomeD[OF Some] have i: "i < length (child n)" by simp
    from Cons.IH[of "child n ! i"] sw Some chm i show ?thesis
      by (simp add: lookup_node_Cons trienode_get_child_def find_child_update)
  qed
qed

lemma set_walk_old:
  "snd (snd (set_walk n k new)) =
     (case lookup_node n k of None \<Rightarrow> \<lparr>key = None, val = None, keylen = 0\<rparr> | Some m \<Rightarrow> item m)"
proof (induction k arbitrary: n)
  case Nil
  then show ?case by simp
next
  case (Cons c cs)
  show ?case
  proof (cases "find_child (child n) c")
    case None
    from Cons.IH[of "trienode_new None None 0 [] c 0"] None show ?thesis
      by (auto simp: lookup_node_Cons trienode_get_child_def lookup_fresh
          split: prod.splits if_splits)
  next
    case (Some i)
    from Cons.IH[of "child n ! i"] Some show ?thesis
      by (auto simp: lookup_node_Cons trienode_get_child_def split: prod.splits)
  qed
qed


text \<open>
  A mutating call on a store, and a sequence of such calls. A call that fails leaves the
  store as it was.
\<close>

datatype trie_op = Set "TRIECHAR list" TRIEVALUE DeallocHandler | Del "TRIECHAR list" DeallocHandler

fun apply_op :: "TrieRoot \<Rightarrow> trie_op \<Rightarrow> TrieRoot" where
  "apply_op r (Set k v d) =
     (case trie_set_item (Some r) (Some k) v d of (rc, Some r', freed) \<Rightarrow> r' | _ \<Rightarrow> r)"
| "apply_op r (Del k d) =
     (case trie_del_item (Some r) (Some k) d of (rc, Some r', freed) \<Rightarrow> r' | _ \<Rightarrow> r)"

definition apply_ops :: "TrieRoot \<Rightarrow> trie_op list \<Rightarrow> TrieRoot" where
  "apply_ops r ops = foldl apply_op r ops"

text \<open>Every node of the subtree has \<^verbatim>\<open>flags == 0\<close>.\<close>

fun flags_clear :: "TrieNode \<Rightarrow> bool" where
  "flags_clear (TrieNode it cs c f) = (f = 0 \<and> (\<forall>m\<in>set cs. flags_clear m))"

lemma trie_set_item_root:
  "fst (snd (trie_set_item (Some r) (Some k) v d)) =
     Some (r\<lparr>root_node := fst (set_walk (root_node r) k \<lparr>key = Some k, val = v, keylen = length k\<rparr>),
             num_nodes := num_nodes r +
               of_nat (fst (snd (set_walk (root_node r) k \<lparr>key = Some k, val = v, keylen = length k\<rparr>))),
             num_items := (if trie_has_key (Some r) k then num_items r else num_items r + 1),
             state_id := (if trie_has_key (Some r) k then state_id r else state_id r + 1),
             memsize := memsize r +
               of_nat (fst (snd (set_walk (root_node r) k \<lparr>key = Some k, val = v, keylen = length k\<rparr>)))
                 * sizeof_TrieNode
               - (case trie_get_item (Some r) k of None \<Rightarrow> 0 | Some old \<Rightarrow> of_nat (keylen old) + 1)
               + (of_nat (length k) + 1)\<rparr>)"
proof -
  obtain n cr old where sw:
    "set_walk (root_node r) k \<lparr>key = Some k, val = v, keylen = length k\<rparr> = (n, cr, old)"
    by (cases "set_walk (root_node r) k \<lparr>key = Some k, val = v, keylen = length k\<rparr>")
  have old: "old = (case lookup_node (root_node r) k of
      None \<Rightarrow> \<lparr>key = None, val = None, keylen = 0\<rparr> | Some m \<Rightarrow> item m)"
    using set_walk_old[of "root_node r" k "\<lparr>key = Some k, val = v, keylen = length k\<rparr>"] sw
    by simp
  show ?thesis
    using sw old
    by (auto simp: trie_set_item_def Let_def trie_has_key_lookup trie_get_item_lookup
        split: option.splits)
qed

lemma trie_set_item_rc [simp]: "fst (trie_set_item (Some r) (Some k) v d) = 0"
  by (simp add: trie_set_item_def Let_def split: prod.splits)


lemma trie_get_item_after_set:
  "trie_get_item (fst (snd (trie_set_item (Some r) (Some k) v d))) k =
     Some \<lparr>key = Some k, val = v, keylen = length k\<rparr>"
  using set_walk_lookup_same[of "root_node r" k "\<lparr>key = Some k, val = v, keylen = length k\<rparr>"]
  by (auto simp: trie_set_item_root trie_get_item_lookup)

section \<open>Round trip of \<^verbatim>\<open>trie_set_item\<close> and \<^verbatim>\<open>trie_get_item\<close>\<close>




lemma del_walk_None_iff:
  "del_walk n k d = None \<longleftrightarrow>
     (case lookup_node n k of None \<Rightarrow> True | Some m \<Rightarrow> key (item m) = None)"
proof (induction k arbitrary: n)
  case Nil
  then show ?case by simp
next
  case (Cons c cs)
  show ?case
  proof (cases "find_child (child n) c")
    case None
    then show ?thesis by (simp add: lookup_node_Cons trienode_get_child_def)
  next
    case (Some i)
    with Cons.IH[of "child n ! i"] show ?thesis
      by (auto simp: lookup_node_Cons trienode_get_child_def Let_def
          split: option.splits prod.splits)
  qed
qed

lemma trie_del_item_absent:
  "\<not> trie_has_key (Some r) k \<Longrightarrow> trie_del_item (Some r) (Some k) d = (- 1, Some r, [])"
  using del_walk_None_iff[of "root_node r" k d]
  by (auto simp: trie_del_item_def trie_has_key_lookup split: option.splits)

lemma trie_del_item_present:
  "trie_has_key (Some r) k \<Longrightarrow>
   \<exists>n removed old freed. del_walk (root_node r) k d = Some (n, removed, old, freed) \<and>
     trie_del_item (Some r) (Some k) d =
       (0, Some (r\<lparr>root_node := n,
                  memsize := memsize r - (of_nat (keylen old) + 1)
                               - of_nat removed * sizeof_TrieNode,
                  num_items := num_items r - 1,
                  num_nodes := num_nodes r - of_nat removed,
                  state_id := state_id r + 1\<rparr>), freed)"
  using del_walk_None_iff[of "root_node r" k d]
  by (auto simp: trie_del_item_def trie_has_key_lookup split: option.splits)

lemma node_count_set_walk:
  "node_count (fst (set_walk n k new)) = node_count n + fst (snd (set_walk n k new))"
proof (induction k arbitrary: n)
  case Nil
  then show ?case by (simp add: node_count_child[of n])
next
  case (Cons c cs)
  show ?case
  proof (cases "find_child (child n) c")
    case None
    with Cons.IH[of "trienode_new None None 0 [] c 0"] show ?thesis
      by (auto simp: trienode_get_child_def node_count_child[of n] trienode_new_def
          split: prod.splits)
  next
    case (Some i)
    from find_child_SomeD[OF Some] have i: "i < length (child n)" by simp
    obtain m cr old where sw: "set_walk (child n ! i) cs new = (m, cr, old)"
      by (cases "set_walk (child n ! i) cs new")
    have "sum_list ((map node_count (child n))[i := node_count m]) =
        sum_list (map node_count (child n)) + node_count m - node_count (child n ! i)"
      using i by (simp add: sum_list_update)
    with Cons.IH[of "child n ! i"] sw Some i show ?thesis
      by (simp add: trienode_get_child_def node_count_child[of n] map_update)
  qed
qed

lemma set_walk_created_fresh:
  "0 < fst (snd (set_walk n k new)) \<Longrightarrow> lookup_node n k = None"
proof (induction k arbitrary: n)
  case Nil
  then show ?case by simp
next
  case (Cons c cs)
  show ?case
  proof (cases "find_child (child n) c")
    case None
    then show ?thesis by (simp add: lookup_node_Cons)
  next
    case (Some i)
    with Cons.prems have "0 < fst (snd (set_walk (child n ! i) cs new))"
      by (simp add: trienode_get_child_def split: prod.splits)
    from Cons.IH[OF this] Some show ?thesis by (simp add: lookup_node_Cons)
  qed
qed

lemma hammingpairs_next_fields:
  "trieiter_hammingpairs_next r it = Some (res, r', it') \<Longrightarrow>
   r' = r\<lparr>root_node := root_node r'\<rparr>"
proof (induction r it rule: trieiter_hammingpairs_next.induct)
  case (1 r it)
  show ?case
  proof (cases "trieiter_pop_state it")
    case None
    show ?thesis
    proof (cases "stack it")
      case Nil
      with "1.prems" None show ?thesis
        by (simp add: trieiter_hammingpairs_next.simps[of r it])
    next
      case (Cons q rest)
      with "1.prems" None obtain qn where qn: "node_at (root_node r) q = Some qn"
        by (auto simp: trieiter_hammingpairs_next.simps[of r it] split: option.splits)
      from "1.prems" None Cons qn
      have nx: "trieiter_hammingpairs_next
            (r\<lparr>root_node := node_upd set_explored q (root_node r)\<rparr>)
            (trieiter_push_state (it\<lparr>stack := rest\<rparr>) [] q 0 0) = Some (res, r', it')"
        by (simp add: trieiter_hammingpairs_next.simps[of r it])
      from "1.IH"(1)[OF None Cons qn nx] show ?thesis
        by (cases r, cases r') simp
    qed
  next
    case (Some a)
    obtain state it1 where a: "a = (state, it1)" by (cases a)
    with Some have pop: "trieiter_pop_state it = Some (state, it1)" by simp
    from "1.prems" pop obtain n where n: "node_at (root_node r) (s_node state) = Some n"
      by (auto simp: trieiter_hammingpairs_next.simps[of r it] split: option.splits)
    let ?r1 = "r\<lparr>root_node := node_upd set_explored (s_node state) (root_node r)\<rparr>"
    show ?thesis
    proof (cases "s_depth state = target_depth it1")
      case True
      show ?thesis
      proof (cases "key (item n) = None")
        case skip: True
        with "1.prems" pop n True
        have nx: "trieiter_hammingpairs_next ?r1 it1 = Some (res, r', it')"
          by (simp add: trieiter_hammingpairs_next.simps[of r it])
        from "1.IH"(2)[OF pop refl n True skip nx] show ?thesis
          by (cases r, cases r') simp
      next
        case False
        with "1.prems" pop n True have "r' = r"
          by (simp_all add: trieiter_hammingpairs_next.simps[of r it])
        then show ?thesis by simp
      qed
    next
      case False
      with "1.prems" pop n obtain it2 nc ne where
        pc: "hammingpairs_push_children r it1 state (child n) 0 0 0 = Some (it2, nc, ne)"
        and nx: "trieiter_hammingpairs_next (if nc = ne then ?r1 else r) it2 = Some (res, r', it')"
        by (auto simp: trieiter_hammingpairs_next.simps[of r it] split: option.splits)
      from "1.IH"(3)[OF pop refl n False pc refl refl nx] show ?thesis
        by (cases r, cases r') (simp split: if_splits)
    qed
  qed
qed

lemma trieiter_next_fields:
  assumes "trieiter_next r it = Some (res, r', it')"
  shows "r' = r\<lparr>root_node := root_node r'\<rparr>"
proof (cases "trie_state_id it \<noteq> state_id r \<or> (is_dirty it \<and> dirty_iter r \<noteq> Some (self it))")
  case True
  with assms have "r' = r" unfolding trieiter_next_def by (auto split: if_splits)
  then show ?thesis by simp
next
  case False
  with assms have d: "(case next_func it of
            NEXT_suffixes \<Rightarrow>
              map_option (\<lambda>(res, it'). (res, r, it')) (trieiter_suffixes_next r it)
          | NEXT_neighbors \<Rightarrow>
              map_option (\<lambda>(res, it'). (res, r, it')) (trieiter_neighbors_next r it)
          | NEXT_hammingpairs \<Rightarrow> trieiter_hammingpairs_next r it) = Some (res, r', it')"
    unfolding trieiter_next_def by auto
  show ?thesis
  proof (cases "next_func it")
    case NEXT_suffixes
    with d have "r' = r" by auto
    then show ?thesis by simp
  next
    case NEXT_neighbors
    with d have "r' = r" by auto
    then show ?thesis by simp
  next
    case NEXT_hammingpairs
    with d show ?thesis by (simp add: hammingpairs_next_fields)
  qed
qed

section \<open>When \<^verbatim>\<open>state_id\<close> changes\<close>

text \<open>Two example stores: the key \<open>ab\<close> alone, and the keys \<open>ab\<close> and \<open>a\<close>.\<close>

definition store_ab :: TrieRoot where
  "store_ab = apply_ops trie_new [Set ''ab'' (Some 1) True]"

definition store_a_ab :: TrieRoot where
  "store_a_ab = apply_ops trie_new [Set ''ab'' (Some 1) True, Set ''a'' (Some 2) True]"

lemmas eval_defs =
  apply_ops_def trie_set_item_def trie_del_item_def trie_new_def trienode_get_child_def
  trienode_new_def trie_get_item_def trie_has_key_def trie_get_node_def deref_def
  trieitem_free_def trienode_remove_child_def trienode_free_def Let_def

lemma store_ab_eval:
  "store_ab =
     \<lparr>root_node = TrieNode \<lparr>key = None, val = None, keylen = 0\<rparr>
        [TrieNode \<lparr>key = None, val = None, keylen = 0\<rparr>
           [TrieNode \<lparr>key = Some ''ab'', val = Some 1, keylen = 2\<rparr> [] CHR ''b'' 0]
           CHR ''a'' 0]
        (CHR 0x00) 0,
      num_nodes = 2, num_items = 1, memsize = sizeof_TrieRoot + 2 * sizeof_TrieNode + 3,
      state_id = 1, dirty_iter = None\<rparr>"
  by (simp add: store_ab_def eval_defs)

text \<open>
  Claim C6, as amended. \<^verbatim>\<open>trie_set_item\<close> increases \<^verbatim>\<open>state_id\<close> by one exactly when the key
  was not stored before the call, and \<^verbatim>\<open>trie_del_item\<close> exactly when the key was stored
  (the call then succeeds); otherwise \<^verbatim>\<open>state_id\<close> is unchanged, in particular when a set
  overwrites a stored key. A call that changes the number of nodes is among those that
  increase it. Creating, advancing and freeing an iterator leave it unchanged. So
  \<^verbatim>\<open>state_id\<close> never decreases.
\<close>

theorem state_id_changes:
  "(case trie_set_item (Some r) (Some k) v d of
      (rc, s, freed) \<Rightarrow>
        map_option state_id s = Some (state_id r + (if trie_has_key (Some r) k then 0 else 1)) \<and>
        (node_count (root_node r) \<noteq> node_count (root_node (apply_op r (Set k v d)))
           \<longrightarrow> map_option state_id s = Some (state_id r + 1))) \<and>
   (case trie_del_item (Some r) (Some k) d of
      (rc, s, freed) \<Rightarrow>
        map_option state_id s = Some (state_id r + (if trie_has_key (Some r) k then 1 else 0)) \<and>
        (node_count (root_node r) \<noteq> node_count (root_node (apply_op r (Del k d)))
           \<longrightarrow> map_option state_id s = Some (state_id r + 1))) \<and>
   state_id (snd (trieiter_new r addr num_states mh td lq stk nxt dirty)) = state_id r \<and>
   (case trieiter_next r it of None \<Rightarrow> True | Some (res, r', it') \<Rightarrow> state_id r' = state_id r) \<and>
   state_id (trieiter_free r it) = state_id r"
proof -
  let ?new = "\<lparr>key = Some k, val = v, keylen = length k\<rparr>"
  obtain rc s freed where a: "trie_set_item (Some r) (Some k) v d = (rc, s, freed)"
    by (cases "trie_set_item (Some r) (Some k) v d")
  from trie_set_item_root[of r k v d] a
  have s: "s = Some (r\<lparr>root_node := fst (set_walk (root_node r) k ?new),
             num_nodes := num_nodes r + of_nat (fst (snd (set_walk (root_node r) k ?new))),
             num_items := (if trie_has_key (Some r) k then num_items r else num_items r + 1),
             state_id := (if trie_has_key (Some r) k then state_id r else state_id r + 1),
             memsize := memsize r + of_nat (fst (snd (set_walk (root_node r) k ?new)))
                 * sizeof_TrieNode
               - (case trie_get_item (Some r) k of None \<Rightarrow> 0 | Some old \<Rightarrow> of_nat (keylen old) + 1)
               + (of_nat (length k) + 1)\<rparr>)" by simp
  have set1: "map_option state_id s =
      Some (state_id r + (if trie_has_key (Some r) k then 0 else 1))"
    using s by simp
  have set2: "node_count (root_node r) \<noteq> node_count (root_node (apply_op r (Set k v d)))
      \<longrightarrow> map_option state_id s = Some (state_id r + 1)"
  proof
    assume "node_count (root_node r) \<noteq> node_count (root_node (apply_op r (Set k v d)))"
    with a s have "0 < fst (snd (set_walk (root_node r) k ?new))"
      by (simp add: node_count_set_walk)
    from set_walk_created_fresh[OF this] have "\<not> trie_has_key (Some r) k"
      by (simp add: trie_has_key_lookup)
    with set1 show "map_option state_id s = Some (state_id r + 1)" by simp
  qed
  obtain rc' s' freed' where b: "trie_del_item (Some r) (Some k) d = (rc', s', freed')"
    by (cases "trie_del_item (Some r) (Some k) d")
  have del: "map_option state_id s' =
      Some (state_id r + (if trie_has_key (Some r) k then 1 else 0)) \<and>
      (node_count (root_node r) \<noteq> node_count (root_node (apply_op r (Del k d)))
        \<longrightarrow> map_option state_id s' = Some (state_id r + 1))"
  proof (cases "trie_has_key (Some r) k")
    case True
    from trie_del_item_present[OF True, of d] b show ?thesis using True by auto
  next
    case False
    from trie_del_item_absent[OF False, of d] b show ?thesis using False by auto
  qed
  have nw: "state_id (snd (trieiter_new r addr num_states mh td lq stk nxt dirty)) = state_id r"
    by (simp add: trieiter_new_def)
  have nx: "(case trieiter_next r it of None \<Rightarrow> True
      | Some (res, r', it') \<Rightarrow> state_id r' = state_id r)"
  proof (cases "trieiter_next r it")
    case None
    then show ?thesis by simp
  next
    case (Some x)
    obtain res r' it' where x: "x = (res, r', it')" by (cases x)
    from trieiter_next_fields[of r it res r' it'] Some x
    have "r' = r\<lparr>root_node := root_node r'\<rparr>" by simp
    then have "state_id r' = state_id r" by (cases r, cases r') simp
    with Some x show ?thesis by simp
  qed
  have fr: "state_id (trieiter_free r it) = state_id r"
    by (simp add: trieiter_free_def)
  show ?thesis using a b set1 set2 del nw nx fr by simp
qed

theorem state_id_changes_witness:
  "node_count (root_node trie_new)
     \<noteq> node_count (root_node (apply_op trie_new (Set ''ab'' (Some 1) True))) \<and>
   map_option state_id (fst (snd (trie_set_item (Some trie_new) (Some ''ab'') (Some 1) True)))
     = Some (state_id trie_new + 1) \<and>
   node_count (root_node store_ab)
     \<noteq> node_count (root_node (apply_op store_ab (Del ''ab'' True))) \<and>
   map_option state_id (fst (snd (trie_del_item (Some store_ab) (Some ''ab'') True)))
     = Some (state_id store_ab + 1)"
proof -
  have h1: "node_count (root_node trie_new)
     \<noteq> node_count (root_node (apply_op trie_new (Set ''ab'' (Some 1) True)))"
    by (simp add: eval_defs)
  have h2: "node_count (root_node store_ab)
     \<noteq> node_count (root_node (apply_op store_ab (Del ''ab'' True)))"
    by (simp add: store_ab_eval) (simp add: eval_defs)
  from h1 state_id_changes[of trie_new "''ab''" "Some 1" True]
  have c1: "map_option state_id
      (fst (snd (trie_set_item (Some trie_new) (Some ''ab'') (Some 1) True)))
     = Some (state_id trie_new + 1)"
    by (simp split: prod.splits)
  from h2 state_id_changes[of store_ab "''ab''" _ True]
  have c2: "map_option state_id (fst (snd (trie_del_item (Some store_ab) (Some ''ab'') True)))
     = Some (state_id store_ab + 1)"
    by (simp split: prod.splits)
  from h1 h2 c1 c2 show ?thesis by simp
qed

text \<open>
  Claim C6 as stated fails: setting \<open>a\<close> in the store that holds \<open>ab\<close> makes the existing
  node of \<open>a\<close> item-bearing, and deleting \<open>a\<close> from the store that holds \<open>a\<close> and \<open>ab\<close>
  keeps that node; both calls increase \<^verbatim>\<open>state_id\<close> and neither adds or removes a node.
\<close>

theorem state_id_bumped_without_node_change:
  "(case trie_set_item (Some store_ab) (Some ''a'') (Some 2) True of
      (rc, s, freed) \<Rightarrow>
        rc = 0 \<and> map_option state_id s = Some (state_id store_ab + 1) \<and>
        map_option num_nodes s = Some (num_nodes store_ab) \<and>
        map_option (node_count \<circ> root_node) s = Some (node_count (root_node store_ab))) \<and>
   (case trie_del_item (Some store_a_ab) (Some ''a'') True of
      (rc, s, freed) \<Rightarrow>
        rc = 0 \<and> map_option state_id s = Some (state_id store_a_ab + 1) \<and>
        map_option num_nodes s = Some (num_nodes store_a_ab) \<and>
        map_option (node_count \<circ> root_node) s = Some (node_count (root_node store_a_ab)))"
  by (simp add: store_ab_def store_a_ab_def eval_defs)


section \<open>Iterators out of sync\<close>





lemma apply_ops_Cons: "apply_ops r (x # xs) = apply_ops (apply_op r x) xs"
  by (simp add: apply_ops_def)


lemma trie_state_id_push [simp]:
  "trie_state_id (trieiter_push_state it nd q h d) = trie_state_id it"
  by (simp add: trieiter_push_state_def)



text \<open>The store that holds the key \<open>a\<close>, and the suffix iterator created on it at address 7.\<close>

definition store_a :: TrieRoot where
  "store_a = apply_ops trie_new [Set ''a'' (Some 1) True]"


lemma store_a_eval:
  "store_a =
     \<lparr>root_node = TrieNode \<lparr>key = None, val = None, keylen = 0\<rparr>
        [TrieNode \<lparr>key = Some ''a'', val = Some 1, keylen = 1\<rparr> [] CHR ''a'' 0]
        (CHR 0x00) 0,
      num_nodes = 1, num_items = 1, memsize = sizeof_TrieRoot + sizeof_TrieNode + 2,
      state_id = 1, dirty_iter = None\<rparr>"
  by (simp add: store_a_def eval_defs)





section \<open>Node flags after \<^verbatim>\<open>trieiter_free\<close>\<close>

lemma flags_clear_reset: "flags_clear (trie_reset n)"
  by (induction n rule: trie_reset.induct) simp


text \<open>The store that holds the keys \<open>a\<close> and \<open>b\<close>.\<close>

definition store_a_b :: TrieRoot where
  "store_a_b = apply_ops trie_new [Set ''a'' (Some 1) True, Set ''b'' (Some 2) True]"



section \<open>The invariant of a store\<close>

text \<open>The item-bearing nodes of a subtree.\<close>

fun count_items :: "TrieNode \<Rightarrow> nat" where
  "count_items (TrieNode it cs c f) =
     (if key it \<noteq> None then 1 else 0) + sum_list (map count_items cs)"

text \<open>
  \<open>node_invar rp n\<close>, for the node \<open>n\<close> reached from the root by the bytes \<open>rev rp\<close>: the
  children of a node carry distinct bytes; the key of an item-bearing node is the bytes
  from the root to it, and \<^verbatim>\<open>keylen\<close> is its length; a node below the root bears an item
  or has a child.
\<close>

fun node_invar :: "TRIECHAR list \<Rightarrow> TrieNode \<Rightarrow> bool" where
  "node_invar rp (TrieNode it cs c f) =
     (distinct (map ch cs) \<and>
      (key it \<noteq> None \<longrightarrow> key it = Some (rev rp) \<and> keylen it = length rp) \<and>
      (\<forall>m\<in>set cs. (key (item m) \<noteq> None \<or> child m \<noteq> []) \<and> node_invar (ch m # rp) m))"

text \<open>
  The invariant of a store adds the two counters and the node flags, which are zero
  when no dirty iterator is registered.
\<close>

definition trie_invar :: "TrieRoot \<Rightarrow> bool" where
  "trie_invar r =
     (node_invar [] (root_node r) \<and>
      num_items r = of_nat (count_items (root_node r)) \<and>
      num_nodes r = of_nat (node_count (root_node r) - 1) \<and>
      (dirty_iter r = None \<longrightarrow> flags_clear (root_node r)))"

text \<open>The set of stored keys, as \<^verbatim>\<open>trie_has_key\<close> reports it.\<close>

definition stored_keys :: "TrieRoot \<Rightarrow> TRIECHAR list set" where
  "stored_keys r = {k. trie_has_key (Some r) k}"

lemma node_invar_unfold:
  "node_invar rp n =
     (distinct (map ch (child n)) \<and>
      (key (item n) \<noteq> None \<longrightarrow> key (item n) = Some (rev rp) \<and> keylen (item n) = length rp) \<and>
      (\<forall>m\<in>set (child n). (key (item m) \<noteq> None \<or> child m \<noteq> []) \<and> node_invar (ch m # rp) m))"
  by (cases n) simp

lemma count_items_unfold:
  "count_items n = (if key (item n) \<noteq> None then 1 else 0) + sum_list (map count_items (child n))"
  by (cases n) simp

lemma flags_clear_unfold:
  "flags_clear n = (flags n = 0 \<and> (\<forall>m\<in>set (child n). flags_clear m))"
  by (cases n) simp

lemma sum_list_split_nth:
  "i < length xs \<Longrightarrow>
   sum_list (map f xs) = sum_list (map f (take i xs)) + f (xs ! i) + sum_list (map f (drop (Suc i) xs))"
proof -
  assume "i < length xs"
  then have "xs = take i xs @ xs ! i # drop (Suc i) xs" by (rule id_take_nth_drop)
  then have "map f xs = map f (take i xs) @ f (xs ! i) # map f (drop (Suc i) xs)"
    by (metis list.simps(9) map_append)
  then show ?thesis by (simp add: add.assoc)
qed

lemma sum_list_update_nth:
  "i < length xs \<Longrightarrow>
   sum_list (map f (xs[i := y])) =
     sum_list (map f (take i xs)) + f y + sum_list (map f (drop (Suc i) xs))"
  using sum_list_split_nth[of i "xs[i := y]" f] by simp

lemma find_child_distinct:
  "distinct (map ch cs) \<Longrightarrow> m \<in> set cs \<Longrightarrow> \<exists>i. find_child cs (ch m) = Some i \<and> cs ! i = m"
proof (induction cs)
  case Nil
  then show ?case by simp
next
  case (Cons x xs)
  show ?case
  proof (cases "m = x")
    case True
    then show ?thesis by simp
  next
    case False
    with Cons.prems have m: "m \<in> set xs" and "ch x \<noteq> ch m" by auto
    with Cons show ?thesis by auto
  qed
qed

lemma lookup_node_Cons_iff:
  assumes "distinct (map ch (child n))"
  shows "lookup_node n (c # cs) = Some x \<longleftrightarrow>
     (\<exists>m\<in>set (child n). ch m = c \<and> lookup_node m cs = Some x)"
proof
  assume "lookup_node n (c # cs) = Some x"
  then obtain i where i: "find_child (child n) c = Some i" and x: "lookup_node (child n ! i) cs = Some x"
    by (auto simp: lookup_node_Cons split: option.splits)
  from find_child_SomeD[OF i] x show "\<exists>m\<in>set (child n). ch m = c \<and> lookup_node m cs = Some x"
    by (auto intro!: bexI[of _ "child n ! i"])
next
  assume "\<exists>m\<in>set (child n). ch m = c \<and> lookup_node m cs = Some x"
  then obtain m where m: "m \<in> set (child n)" "ch m = c" "lookup_node m cs = Some x" by auto
  from find_child_distinct[OF assms m(1)] m show "lookup_node n (c # cs) = Some x"
    by (auto simp: lookup_node_Cons)
qed

lemma lookup_node_append:
  "lookup_node n (p @ q) =
     (case lookup_node n p of None \<Rightarrow> None | Some m \<Rightarrow> lookup_node m q)"
  by (induction p arbitrary: n) (auto simp: lookup_node_Cons split: option.splits)

text \<open>\<^verbatim>\<open>trie_get_item\<close> on a subtree.\<close>

definition lookup_item :: "TrieNode \<Rightarrow> TRIECHAR list \<Rightarrow> TrieItem option" where
  "lookup_item n k =
     (case lookup_node n k of
        None \<Rightarrow> None
      | Some m \<Rightarrow> if key (item m) = None then None else Some (item m))"

lemma trie_get_item_lookup_item: "trie_get_item (Some r) k = lookup_item (root_node r) k"
  by (simp add: trie_get_item_lookup lookup_item_def)

lemma trie_has_key_lookup_item: "trie_has_key (Some r) k \<longleftrightarrow> lookup_item (root_node r) k \<noteq> None"
  by (simp add: trie_has_key_lookup lookup_item_def split: option.splits)

lemma lookup_item_Nil: "lookup_item n [] = (if key (item n) = None then None else Some (item n))"
  by (simp add: lookup_item_def)

lemma lookup_item_Cons:
  "lookup_item n (c # cs) =
     (case find_child (child n) c of None \<Rightarrow> None | Some i \<Rightarrow> lookup_item (child n ! i) cs)"
  by (simp add: lookup_item_def lookup_node_Cons split: option.splits)

lemma lookup_item_fresh [simp]: "lookup_item (trienode_new None None 0 [] c 0) k = None"
  by (cases k) (simp_all add: lookup_item_Nil lookup_item_Cons)

lemma find_child_update_other:
  assumes "find_child cs c = Some j" "i < length cs" "ch m = ch (cs ! i)" "ch (cs ! i) \<noteq> c"
  shows "cs[i := m] ! j = cs ! j"
proof -
  from find_child_SomeD[OF assms(1)] assms(4) have "i \<noteq> j" by auto
  then show ?thesis by simp
qed

lemma set_walk_lookup_item:
  "lookup_item (fst (set_walk n k new)) k' =
     (if k' = k then (if key new = None then None else Some new) else lookup_item n k')"
proof (induction k arbitrary: n k')
  case Nil
  then show ?case
    by (cases k') (auto simp: lookup_item_Nil lookup_item_Cons split: option.splits)
next
  case (Cons c cs)
  show ?case
  proof (cases k')
    case Nil
    then show ?thesis
      by (simp add: lookup_item_Nil trienode_get_child_def split: option.splits prod.splits)
  next
    case k': (Cons c' cs')
    show ?thesis
    proof (cases "find_child (child n) c")
      case None
      obtain m cr old where sw: "set_walk (trienode_new None None 0 [] c 0) cs new = (m, cr, old)"
        by (cases "set_walk (trienode_new None None 0 [] c 0) cs new")
      have chm: "ch m = c" using set_walk_ch[of "trienode_new None None 0 [] c 0" cs new] sw
        by simp
      show ?thesis
      proof (cases "c' = c")
        case True
        with Cons.IH[of "trienode_new None None 0 [] c 0" cs'] sw None chm k' show ?thesis
          by (simp add: lookup_item_Cons trienode_get_child_def)
      next
        case False
        with sw None chm k' show ?thesis
          by (auto simp: lookup_item_Cons trienode_get_child_def split: option.splits)
      qed
    next
      case (Some i)
      obtain m cr old where sw: "set_walk (child n ! i) cs new = (m, cr, old)"
        by (cases "set_walk (child n ! i) cs new")
      have chm: "ch m = ch (child n ! i)" using set_walk_ch[of "child n ! i" cs new] sw by simp
      from find_child_SomeD[OF Some] have i: "i < length (child n)" "ch (child n ! i) = c"
        by simp_all
      show ?thesis
      proof (cases "c' = c")
        case True
        with Cons.IH[of "child n ! i" cs'] sw Some chm i k' show ?thesis
          by (simp add: lookup_item_Cons trienode_get_child_def find_child_update)
      next
        case False
        with sw Some chm i k' show ?thesis
          by (auto simp: lookup_item_Cons trienode_get_child_def find_child_update
              find_child_update_other split: option.splits)
      qed
    qed
  qed
qed


subsection \<open>\<^verbatim>\<open>trie_set_item\<close> keeps the invariant\<close>

lemma set_walk_not_dead:
  "key new \<noteq> None \<Longrightarrow>
   key (item (fst (set_walk n k new))) \<noteq> None \<or> child (fst (set_walk n k new)) \<noteq> []"
proof (cases k)
  case Nil
  assume "key new \<noteq> None"
  with Nil show ?thesis by simp
next
  case (Cons c cs)
  show ?thesis
  proof (cases "find_child (child n) c")
    case None
    with Cons show ?thesis by (simp add: trienode_get_child_def split: prod.splits)
  next
    case (Some i)
    from find_child_SomeD[OF Some] have "child n \<noteq> []" by auto
    with Cons Some show ?thesis by (simp add: trienode_get_child_def split: prod.splits)
  qed
qed

lemma node_invar_fresh: "node_invar rp (trienode_new None None 0 [] c 0)"
  by (simp add: trienode_new_def)

lemma set_walk_invar:
  "node_invar rp n \<Longrightarrow>
   node_invar rp (fst (set_walk n k \<lparr>key = Some (rev rp @ k), val = v,
                                      keylen = length rp + length k\<rparr>))"
proof (induction k arbitrary: n rp)
  case Nil
  then show ?case by (simp add: node_invar_unfold[of rp n])
next
  case (Cons c cs)
  let ?new = "\<lparr>key = Some (rev rp @ c # cs), val = v, keylen = length rp + length (c # cs)\<rparr>"
  have new: "?new = \<lparr>key = Some (rev (c # rp) @ cs), val = v,
      keylen = length (c # rp) + length cs\<rparr>" by simp
  from Cons.prems have inv: "distinct (map ch (child n))"
    "key (item n) \<noteq> None \<longrightarrow> key (item n) = Some (rev rp) \<and> keylen (item n) = length rp"
    "\<forall>m\<in>set (child n). (key (item m) \<noteq> None \<or> child m \<noteq> []) \<and> node_invar (ch m # rp) m"
    by (simp_all add: node_invar_unfold[of rp n])
  show ?case
  proof (cases "find_child (child n) c")
    case None
    let ?f = "trienode_new None None 0 [] c 0"
    obtain m cr old where sw: "set_walk ?f cs ?new = (m, cr, old)"
      by (cases "set_walk ?f cs ?new")
    have chm: "ch m = c" using set_walk_ch[of ?f cs ?new] sw by simp
    have im: "node_invar (c # rp) m"
      using Cons.IH[OF node_invar_fresh[of "c # rp" c]] sw new by simp
    have nd: "key (item m) \<noteq> None \<or> child m \<noteq> []"
      using set_walk_not_dead[of ?new ?f cs] sw by simp
    from None have "c \<notin> ch ` set (child n)" by (simp add: find_child_None)
    with inv im nd chm sw None show ?thesis
      by (simp add: trienode_get_child_def)
  next
    case (Some i)
    obtain m cr old where sw: "set_walk (child n ! i) cs ?new = (m, cr, old)"
      by (cases "set_walk (child n ! i) cs ?new")
    from find_child_SomeD[OF Some] have i: "i < length (child n)" "ch (child n ! i) = c"
      by simp_all
    have chm: "ch m = c" using set_walk_ch[of "child n ! i" cs ?new] sw i by simp
    from inv(3) i have "node_invar (c # rp) (child n ! i)" by (metis nth_mem)
    from Cons.IH[OF this] sw new have im: "node_invar (c # rp) m" by simp
    have nd: "key (item m) \<noteq> None \<or> child m \<noteq> []"
      using set_walk_not_dead[of ?new "child n ! i" cs] sw by simp
    have mp: "map ch ((child n)[i := m]) = map ch (child n)"
      using i chm by (simp add: map_update list_update_same_conv)
    have "\<forall>x\<in>set ((child n)[i := m]). (key (item x) \<noteq> None \<or> child x \<noteq> []) \<and>
        node_invar (ch x # rp) x"
    proof
      fix x assume "x \<in> set ((child n)[i := m])"
      then have "x = m \<or> x \<in> set (child n)"
        using set_update_subset_insert[of "child n" i m] by auto
      with inv(3) im nd chm show "(key (item x) \<noteq> None \<or> child x \<noteq> []) \<and>
        node_invar (ch x # rp) x" by auto
    qed
    with inv mp sw Some show ?thesis
      by (simp add: trienode_get_child_def)
  qed
qed

lemma count_items_fresh [simp]: "count_items (trienode_new None None 0 [] c 0) = 0"
  by (simp add: trienode_new_def)

lemma flags_clear_fresh [simp]: "flags_clear (trienode_new None None 0 [] c 0)"
  by (simp add: trienode_new_def)

lemma list_update_ball:
  "\<forall>x\<in>set cs. P x \<Longrightarrow> P m \<Longrightarrow> \<forall>x\<in>set (cs[i := m]). P x"
  using set_update_subset_insert[of cs i m] by blast

lemma set_walk_count_items:
  "key new \<noteq> None \<Longrightarrow>
   count_items (fst (set_walk n k new)) =
     count_items n + (if lookup_item n k = None then 1 else 0)"
proof (induction k arbitrary: n)
  case Nil
  then show ?case by (simp add: count_items_unfold[of n] lookup_item_Nil)
next
  case (Cons c cs)
  show ?case
  proof (cases "find_child (child n) c")
    case None
    with Cons.IH[OF Cons.prems, of "trienode_new None None 0 [] c 0"] show ?thesis
      by (auto simp: trienode_get_child_def count_items_unfold[of n] lookup_item_Cons
          split: prod.splits)
  next
    case (Some i)
    from find_child_SomeD[OF Some] have i: "i < length (child n)" by simp
    obtain m cr old where sw: "set_walk (child n ! i) cs new = (m, cr, old)"
      by (cases "set_walk (child n ! i) cs new")
    from Cons.IH[OF Cons.prems, of "child n ! i"] sw Some i show ?thesis
      by (simp add: trienode_get_child_def count_items_unfold[of n] lookup_item_Cons
          sum_list_update_nth sum_list_split_nth[of i "child n" count_items])
  qed
qed

lemma set_walk_flags_clear:
  "flags_clear n \<Longrightarrow> flags_clear (fst (set_walk n k new))"
proof (induction k arbitrary: n)
  case Nil
  then show ?case by (simp add: flags_clear_unfold[of n])
next
  case (Cons c cs)
  show ?case
  proof (cases "find_child (child n) c")
    case None
    have "flags_clear (trienode_new None None 0 [] c 0)" by simp
    from Cons.IH[OF this] Cons.prems None show ?thesis
      by (auto simp: trienode_get_child_def flags_clear_unfold[of n] split: prod.splits)
  next
    case (Some i)
    from find_child_SomeD[OF Some] have i: "i < length (child n)" by simp
    with Cons.prems have "flags_clear (child n ! i)"
      by (simp add: flags_clear_unfold[of n])
    from Cons.IH[OF this]
    have "flags_clear (fst (set_walk (child n ! i) cs new))" .
    with Cons.prems
    have "\<forall>x\<in>set ((child n)[i := fst (set_walk (child n ! i) cs new)]). flags_clear x"
      by (intro list_update_ball) (simp_all add: flags_clear_unfold[of n])
    with Cons.prems Some show ?thesis
      by (simp add: trienode_get_child_def flags_clear_unfold[of n] split: prod.splits)
  qed
qed


subsection \<open>\<^verbatim>\<open>trie_del_item\<close> keeps the invariant\<close>

lemma trieitem_free_key [simp]: "key (fst (trieitem_free it d)) = None"
  by (simp add: trieitem_free_def)

lemma del_walk_ch:
  "del_walk n k d = Some (n', rm, old, fr) \<Longrightarrow> ch n' = ch n \<and> flags n' = flags n"
  by (cases k)
     (auto simp: Let_def trienode_remove_child_def trienode_get_child_def
       split: option.splits prod.splits if_splits)

lemma del_walk_Cons_cases:
  assumes "del_walk n (c # cs) d = Some (n', rm, old, fr)"
  obtains i m rm0 fr0 where
    "find_child (child n) c = Some i" "i < length (child n)" "ch (child n ! i) = c"
    "del_walk (child n ! i) cs d = Some (m, rm0, old, fr0)" "ch m = c"
    "flags m = flags (child n ! i)"
    "child m = [] \<and> key (item m) = None \<and> rm = Suc rm0 \<and>
       n' = TrieNode (item n) (take i (child n) @ drop (Suc i) (child n)) (ch n) (flags n)
     \<or> \<not> (child m = [] \<and> key (item m) = None) \<and> rm = rm0 \<and> fr = fr0 \<and>
       n' = TrieNode (item n) ((child n)[i := m]) (ch n) (flags n)"
proof -
  from assms obtain i where i: "find_child (child n) c = Some i"
    by (auto simp: trienode_get_child_def split: option.splits)
  from find_child_SomeD[OF i] have il: "i < length (child n)" and ic: "ch (child n ! i) = c"
    by simp_all
  from assms i obtain m rm0 old0 fr0 where
    dw: "del_walk (child n ! i) cs d = Some (m, rm0, old0, fr0)"
    by (auto simp: trienode_get_child_def split: option.splits)
  from del_walk_ch[OF dw] ic have chm: "ch m = c" "flags m = flags (child n ! i)" by simp_all
  have fc: "find_child ((child n)[i := m]) c = Some i"
    using il chm ic i by (simp add: find_child_update)
  have old: "old0 = old"
    using assms i dw
    by (auto simp: trienode_get_child_def Let_def split: if_splits prod.splits)
  show ?thesis
  proof (cases "child m = [] \<and> key (item m) = None")
    case True
    with assms i dw fc il chm have "rm = Suc rm0"
      "n' = TrieNode (item n) (take i (child n) @ drop (Suc i) (child n)) (ch n) (flags n)"
      by (auto simp: trienode_get_child_def Let_def trienode_remove_child_def)
    with that[OF i il ic dw[unfolded old] chm] True show ?thesis by simp
  next
    case False
    with assms i dw have "rm = rm0" "fr = fr0"
      "n' = TrieNode (item n) ((child n)[i := m]) (ch n) (flags n)"
      by (auto simp: trienode_get_child_def Let_def)
    with that[OF i il ic dw[unfolded old] chm] False show ?thesis by simp
  qed
qed

lemma distinct_map_remove_nth:
  "distinct (map f xs) \<Longrightarrow> distinct (map f (take i xs @ drop (Suc i) xs))"
proof -
  assume d: "distinct (map f xs)"
  have "set (take i (map f xs)) \<inter> set (drop (Suc i) (map f xs)) = {}"
    using d set_take_disj_set_drop_if_distinct[of "map f xs" i "Suc i"] by simp
  with d show ?thesis
    by (simp add: take_map[symmetric] drop_map[symmetric] del: take_map drop_map)
qed

lemma set_remove_nth_subset: "set (take i xs @ drop (Suc i) xs) \<subseteq> set xs"
  by (auto dest: in_set_takeD in_set_dropD)

lemma del_walk_invar:
  "node_invar rp n \<Longrightarrow> del_walk n k d = Some (n', rm, old, fr) \<Longrightarrow> node_invar rp n'"
proof (induction k arbitrary: n rp n' rm fr)
  case Nil
  then show ?case by (auto simp: node_invar_unfold[of rp n] split: if_splits)
next
  case (Cons c cs)
  from Cons.prems(1) have inv: "distinct (map ch (child n))"
    "key (item n) \<noteq> None \<longrightarrow> key (item n) = Some (rev rp) \<and> keylen (item n) = length rp"
    "\<forall>m\<in>set (child n). (key (item m) \<noteq> None \<or> child m \<noteq> []) \<and> node_invar (ch m # rp) m"
    by (simp_all add: node_invar_unfold[of rp n])
  from Cons.prems(2) show ?case
  proof (cases rule: del_walk_Cons_cases)
    case (1 i m rm0 fr0)
    from inv(3) 1(2,3) have "node_invar (c # rp) (child n ! i)" by (metis nth_mem)
    from Cons.IH[OF this 1(4)] have im: "node_invar (c # rp) m" .
    from 1(7) show ?thesis
    proof
      assume a: "child m = [] \<and> key (item m) = None \<and> rm = Suc rm0 \<and>
        n' = TrieNode (item n) (take i (child n) @ drop (Suc i) (child n)) (ch n) (flags n)"
      have "\<forall>x\<in>set (take i (child n) @ drop (Suc i) (child n)).
          (key (item x) \<noteq> None \<or> child x \<noteq> []) \<and> node_invar (ch x # rp) x"
        using inv(3) set_remove_nth_subset[of i "child n"] by blast
      with a inv distinct_map_remove_nth[OF inv(1), of i] show ?thesis by simp
    next
      assume a: "\<not> (child m = [] \<and> key (item m) = None) \<and> rm = rm0 \<and> fr = fr0 \<and>
        n' = TrieNode (item n) ((child n)[i := m]) (ch n) (flags n)"
      have mp: "map ch ((child n)[i := m]) = map ch (child n)"
        using 1 by (simp add: map_update list_update_same_conv)
      have "\<forall>x\<in>set ((child n)[i := m]).
          (key (item x) \<noteq> None \<or> child x \<noteq> []) \<and> node_invar (ch x # rp) x"
        using inv(3) im a 1(5) by (intro list_update_ball) auto
      with a inv mp show ?thesis by simp
    qed
  qed
qed

lemma del_walk_flags_clear:
  "flags_clear n \<Longrightarrow> del_walk n k d = Some (n', rm, old, fr) \<Longrightarrow> flags_clear n'"
proof (induction k arbitrary: n n' rm fr)
  case Nil
  then show ?case by (auto simp: flags_clear_unfold[of n] split: if_splits)
next
  case (Cons c cs)
  from Cons.prems(2) show ?case
  proof (cases rule: del_walk_Cons_cases)
    case (1 i m rm0 fr0)
    from Cons.prems(1) 1(2) have "flags_clear (child n ! i)"
      by (simp add: flags_clear_unfold[of n])
    from Cons.IH[OF this 1(4)] have fm: "flags_clear m" .
    from 1(7) show ?thesis
    proof
      assume a: "child m = [] \<and> key (item m) = None \<and> rm = Suc rm0 \<and>
        n' = TrieNode (item n) (take i (child n) @ drop (Suc i) (child n)) (ch n) (flags n)"
      have "\<forall>x\<in>set (take i (child n) @ drop (Suc i) (child n)). flags_clear x"
        using Cons.prems(1) set_remove_nth_subset[of i "child n"]
        by (auto simp: flags_clear_unfold[of n])
      with a Cons.prems(1) show ?thesis by (simp add: flags_clear_unfold[of n])
    next
      assume a: "\<not> (child m = [] \<and> key (item m) = None) \<and> rm = rm0 \<and> fr = fr0 \<and>
        n' = TrieNode (item n) ((child n)[i := m]) (ch n) (flags n)"
      have "\<forall>x\<in>set ((child n)[i := m]). flags_clear x"
        using Cons.prems(1) fm by (intro list_update_ball) (simp_all add: flags_clear_unfold[of n])
      with a Cons.prems(1) show ?thesis by (simp add: flags_clear_unfold[of n])
    qed
  qed
qed

lemma sum_list_remove_nth:
  "i < length xs \<Longrightarrow>
   sum_list (map f (take i xs @ drop (Suc i) xs)) + f (xs ! i) = sum_list (map f xs)"
  for f :: "'a \<Rightarrow> nat"
  using sum_list_split_nth[of i xs f] by simp

lemma del_walk_counts:
  "del_walk n k d = Some (n', rm, old, fr) \<Longrightarrow>
   count_items n' + 1 = count_items n \<and> node_count n' + rm = node_count n"
proof (induction k arbitrary: n n' rm fr)
  case Nil
  then show ?case
    by (auto simp: count_items_unfold[of n] node_count_child[of n] split: if_splits)
next
  case (Cons c cs)
  from Cons.prems show ?case
  proof (cases rule: del_walk_Cons_cases)
    case (1 i m rm0 fr0)
    from Cons.IH[OF 1(4)]
    have ih: "count_items m + 1 = count_items (child n ! i)"
      "node_count m + rm0 = node_count (child n ! i)" by simp_all
    from 1(7) show ?thesis
    proof
      assume a: "child m = [] \<and> key (item m) = None \<and> rm = Suc rm0 \<and>
        n' = TrieNode (item n) (take i (child n) @ drop (Suc i) (child n)) (ch n) (flags n)"
      then have "count_items m = 0" "node_count m = 1"
        by (simp_all add: count_items_unfold[of m] node_count_child[of m])
      with ih a sum_list_remove_nth[OF 1(2), of count_items]
        sum_list_remove_nth[OF 1(2), of node_count]
      show ?thesis by (simp add: count_items_unfold[of n] node_count_child[of n])
    next
      assume a: "\<not> (child m = [] \<and> key (item m) = None) \<and> rm = rm0 \<and> fr = fr0 \<and>
        n' = TrieNode (item n) ((child n)[i := m]) (ch n) (flags n)"
      with ih 1(2) show ?thesis
        by (simp add: count_items_unfold[of n] node_count_child[of n]
            sum_list_update_nth sum_list_split_nth[of i "child n" count_items]
            sum_list_split_nth[of i "child n" node_count])
    qed
  qed
qed


lemma lookup_item_SomeD:
  "lookup_item n k = Some x \<longleftrightarrow>
     (\<exists>y. lookup_node n k = Some y \<and> key (item y) \<noteq> None \<and> x = item y)"
  by (cases "lookup_node n k") (auto simp: lookup_item_def)

lemma lookup_item_Cons_iff:
  assumes "distinct (map ch (child n))"
  shows "lookup_item n (c # cs) = Some x \<longleftrightarrow>
     (\<exists>m\<in>set (child n). ch m = c \<and> lookup_item m cs = Some x)"
proof
  assume "lookup_item n (c # cs) = Some x"
  then obtain y where y: "lookup_node n (c # cs) = Some y" "key (item y) \<noteq> None" "x = item y"
    unfolding lookup_item_SomeD by blast
  from y(1) obtain m where m: "m \<in> set (child n)" "ch m = c" "lookup_node m cs = Some y"
    unfolding lookup_node_Cons_iff[OF assms] by blast
  from m(3) y(2,3) have "lookup_item m cs = Some x" unfolding lookup_item_SomeD by blast
  with m show "\<exists>m\<in>set (child n). ch m = c \<and> lookup_item m cs = Some x" by blast
next
  assume "\<exists>m\<in>set (child n). ch m = c \<and> lookup_item m cs = Some x"
  then obtain m where m: "m \<in> set (child n)" "ch m = c" "lookup_item m cs = Some x" by blast
  from m(3) obtain y where y: "lookup_node m cs = Some y" "key (item y) \<noteq> None" "x = item y"
    unfolding lookup_item_SomeD by blast
  from m(1,2) y(1) have "lookup_node n (c # cs) = Some y"
    unfolding lookup_node_Cons_iff[OF assms] by blast
  with y(2,3) show "lookup_item n (c # cs) = Some x" unfolding lookup_item_SomeD by blast
qed

lemma set_remove_nth_distinct:
  assumes "distinct xs" "i < length xs"
  shows "set (take i xs @ drop (Suc i) xs) = set xs - {xs ! i}"
proof -
  have xs: "xs = take i xs @ xs ! i # drop (Suc i) xs"
    using assms(2) by (rule id_take_nth_drop)
  have "distinct (take i xs @ xs ! i # drop (Suc i) xs)" using assms(1) xs by simp
  then have "xs ! i \<notin> set (take i xs)" "xs ! i \<notin> set (drop (Suc i) xs)" by auto
  moreover have "set xs = set (take i xs) \<union> {xs ! i} \<union> set (drop (Suc i) xs)"
    using xs by (metis list.simps(15) set_append Un_assoc insert_is_Un)
  ultimately show ?thesis by auto
qed

lemma lookup_item_dead:
  "child m = [] \<Longrightarrow> key (item m) = None \<Longrightarrow> lookup_item m k = None"
  by (cases k) (simp_all add: lookup_item_Nil lookup_item_Cons)

lemma option_eqI: "(\<And>x. a = Some x \<longleftrightarrow> b = Some x) \<Longrightarrow> a = b"
  by (cases a; cases b) auto

lemma del_walk_lookup_item:
  "node_invar rp n \<Longrightarrow> del_walk n k d = Some (n', rm, old, fr) \<Longrightarrow>
   lookup_item n' k' = (if k' = k then None else lookup_item n k')"
proof (induction k arbitrary: n rp n' rm fr k')
  case Nil
  then show ?case
    by (cases k') (auto simp: lookup_item_Nil lookup_item_Cons split: if_splits option.splits)
next
  case (Cons c cs)
  from Cons.prems(1) have inv: "distinct (map ch (child n))"
    "\<forall>m\<in>set (child n). node_invar (ch m # rp) m"
    by (simp_all add: node_invar_unfold[of rp n])
  from del_walk_invar[OF Cons.prems] have inv': "distinct (map ch (child n'))"
    by (simp add: node_invar_unfold[of rp n'])
  from inv(1) have dcs: "distinct (child n)" by (rule distinct_map[THEN iffD1, THEN conjunct1])
  from Cons.prems(2) show ?case
  proof (cases rule: del_walk_Cons_cases)
    case (1 i m rm0 fr0)
    from inv(2) 1(2,3) have "node_invar (c # rp) (child n ! i)" by (metis nth_mem)
    from Cons.IH[OF this 1(4)]
    have ih: "\<And>k'. lookup_item m k' = (if k' = cs then None else lookup_item (child n ! i) k')" .
    have uniq: "\<And>x. x \<in> set (child n) \<Longrightarrow> ch x = c \<Longrightarrow> x = child n ! i"
      using inv(1) 1(2,3) by (metis distinct_map inj_onD nth_mem)
    show ?thesis
    proof (cases k')
      case Nil
      with 1(7) show ?thesis by (auto simp: lookup_item_Nil)
    next
      case k': (Cons c' cs')
      show ?thesis
      proof (rule option_eqI)
        fix x
        have L: "lookup_item n' k' = Some x \<longleftrightarrow>
            (\<exists>y\<in>set (child n'). ch y = c' \<and> lookup_item y cs' = Some x)"
          unfolding k' by (rule lookup_item_Cons_iff[OF inv'])
        have R: "lookup_item n k' = Some x \<longleftrightarrow>
            (\<exists>y\<in>set (child n). ch y = c' \<and> lookup_item y cs' = Some x)"
          unfolding k' by (rule lookup_item_Cons_iff[OF inv(1)])
        from 1(7) show "lookup_item n' k' = Some x \<longleftrightarrow>
            (if k' = c # cs then None else lookup_item n k') = Some x"
        proof
          assume a: "child m = [] \<and> key (item m) = None \<and> rm = Suc rm0 \<and>
            n' = TrieNode (item n) (take i (child n) @ drop (Suc i) (child n)) (ch n) (flags n)"
          then have dead: "\<And>k. lookup_item m k = None" by (simp add: lookup_item_dead)
          with ih have old_none: "\<And>k. k \<noteq> cs \<Longrightarrow> lookup_item (child n ! i) k = None"
            by metis
          from a have cs': "set (child n') = set (child n) - {child n ! i}"
            using set_remove_nth_distinct[OF dcs 1(2)] by simp
          show ?thesis
          proof (cases "c' = c")
            case True
            have "\<not> (\<exists>y\<in>set (child n'). ch y = c' \<and> lookup_item y cs' = Some x)"
              using cs' uniq True by auto
            moreover have "cs' \<noteq> cs \<Longrightarrow> lookup_item n k' = None"
            proof -
              assume "cs' \<noteq> cs"
              from old_none[OF this] have "\<And>x. \<not> (\<exists>y\<in>set (child n). ch y = c' \<and>
                  lookup_item y cs' = Some x)"
                using uniq True by auto
              then show ?thesis using lookup_item_Cons_iff[OF inv(1), of c' cs'] k'
                by (cases "lookup_item n k'") auto
            qed
            ultimately show ?thesis using L True k' by auto
          next
            case False
            then have "(\<exists>y\<in>set (child n'). ch y = c' \<and> lookup_item y cs' = Some x) \<longleftrightarrow>
                (\<exists>y\<in>set (child n). ch y = c' \<and> lookup_item y cs' = Some x)"
              using cs' 1(3) by auto
            with L R False k' show ?thesis by simp
          qed
        next
          assume a: "\<not> (child m = [] \<and> key (item m) = None) \<and> rm = rm0 \<and> fr = fr0 \<and>
            n' = TrieNode (item n) ((child n)[i := m]) (ch n) (flags n)"
          then have cs': "set (child n') = insert m (set (child n) - {child n ! i})"
            using set_update_distinct[OF dcs 1(2)] by simp
          show ?thesis
          proof (cases "c' = c")
            case True
            have "(\<exists>y\<in>set (child n'). ch y = c' \<and> lookup_item y cs' = Some x) \<longleftrightarrow>
                lookup_item m cs' = Some x"
              using cs' uniq True 1(5) by auto
            moreover have "(\<exists>y\<in>set (child n). ch y = c' \<and> lookup_item y cs' = Some x) \<longleftrightarrow>
                lookup_item (child n ! i) cs' = Some x"
              using uniq True 1(2,3) by (metis nth_mem)
            ultimately show ?thesis using L R True k' ih[of cs'] by auto
          next
            case False
            then have "(\<exists>y\<in>set (child n'). ch y = c' \<and> lookup_item y cs' = Some x) \<longleftrightarrow>
                (\<exists>y\<in>set (child n). ch y = c' \<and> lookup_item y cs' = Some x)"
              using cs' 1(3,5) by auto
            with L R False k' show ?thesis by simp
          qed
        qed
      qed
    qed
  qed
qed


lemma apply_op_Set:
  "apply_op r (Set k v d) =
     (case fst (snd (trie_set_item (Some r) (Some k) v d)) of None \<Rightarrow> r | Some r' \<Rightarrow> r')"
  by (cases "trie_set_item (Some r) (Some k) v d") (auto split: option.splits)

lemma apply_op_Del:
  "apply_op r (Del k d) =
     (case fst (snd (trie_del_item (Some r) (Some k) d)) of None \<Rightarrow> r | Some r' \<Rightarrow> r')"
  by (cases "trie_del_item (Some r) (Some k) d") (auto split: option.splits)

subsection \<open>Every store built by set and del satisfies the invariant\<close>

declare apply_op.simps [simp del]

lemma trie_invar_new: "trie_invar trie_new"
  by (simp add: trie_invar_def trie_new_def)

lemma trie_invar_set:
  assumes "trie_invar r"
  shows "trie_invar (apply_op r (Set k v d))"
proof -
  let ?new = "\<lparr>key = Some k, val = v, keylen = length k\<rparr>"
  let ?n = "fst (set_walk (root_node r) k ?new)"
  let ?cr = "fst (snd (set_walk (root_node r) k ?new))"
  from assms have inv: "node_invar [] (root_node r)"
    "num_items r = of_nat (count_items (root_node r))"
    "num_nodes r = of_nat (node_count (root_node r) - 1)"
    "dirty_iter r = None \<longrightarrow> flags_clear (root_node r)"
    by (simp_all add: trie_invar_def)
  have r': "apply_op r (Set k v d) =
      r\<lparr>root_node := ?n, num_nodes := num_nodes r + of_nat ?cr,
        num_items := (if trie_has_key (Some r) k then num_items r else num_items r + 1),
        state_id := (if trie_has_key (Some r) k then state_id r else state_id r + 1),
        memsize := memsize r + of_nat ?cr * sizeof_TrieNode
          - (case trie_get_item (Some r) k of None \<Rightarrow> 0 | Some old \<Rightarrow> of_nat (keylen old) + 1)
          + (of_nat (length k) + 1)\<rparr>"
    unfolding apply_op_Set trie_set_item_root by simp
  have a: "node_invar [] ?n" using set_walk_invar[OF inv(1), of k v] by simp
  have b: "count_items ?n = count_items (root_node r) + (if trie_has_key (Some r) k then 0 else 1)"
    using set_walk_count_items[of ?new "root_node r" k]
    by (simp add: trie_has_key_lookup_item)
  have c: "node_count ?n - 1 = (node_count (root_node r) - 1) + ?cr"
    using node_count_set_walk[of "root_node r" k ?new] node_count_pos[of "root_node r"]
    by simp
  have e: "dirty_iter r = None \<longrightarrow> flags_clear ?n"
    using inv(4) set_walk_flags_clear by blast
  show ?thesis
    unfolding r' trie_invar_def using a b c e inv(2,3) by simp
qed

lemma trie_invar_del:
  assumes "trie_invar r"
  shows "trie_invar (apply_op r (Del k d))"
proof (cases "trie_has_key (Some r) k")
  case False
  from trie_del_item_absent[OF False, of d] assms show ?thesis by (simp add: apply_op_Del)
next
  case True
  from assms have inv: "node_invar [] (root_node r)"
    "num_items r = of_nat (count_items (root_node r))"
    "num_nodes r = of_nat (node_count (root_node r) - 1)"
    "dirty_iter r = None \<longrightarrow> flags_clear (root_node r)"
    by (simp_all add: trie_invar_def)
  from trie_del_item_present[OF True, of d] obtain n rm old fr where
    dw: "del_walk (root_node r) k d = Some (n, rm, old, fr)" and
    r': "apply_op r (Del k d) =
      r\<lparr>root_node := n,
        memsize := memsize r - (of_nat (keylen old) + 1) - of_nat rm * sizeof_TrieNode,
        num_items := num_items r - 1, num_nodes := num_nodes r - of_nat rm,
        state_id := state_id r + 1\<rparr>"
    by (auto simp: apply_op_Del)
  have a: "node_invar [] n" by (rule del_walk_invar[OF inv(1) dw])
  from del_walk_counts[OF dw]
  have b: "count_items n + 1 = count_items (root_node r)"
    and c: "node_count n + rm = node_count (root_node r)" by simp_all
  have b': "(of_nat (count_items (root_node r)) :: 64 word) - 1 = of_nat (count_items n)"
    using b by (metis add_diff_cancel_right' of_nat_1 of_nat_add)
  have "node_count (root_node r) - 1 = (node_count n - 1) + rm"
    using c node_count_pos[of n] by simp
  then have c': "(of_nat (node_count (root_node r) - 1) :: 64 word) - of_nat rm
      = of_nat (node_count n - 1)"
    by simp
  have e: "dirty_iter r = None \<longrightarrow> flags_clear n"
    using inv(4) del_walk_flags_clear[OF _ dw] by blast
  show ?thesis
    unfolding r' trie_invar_def using a b' c' e inv(2,3) by simp
qed

lemma trie_invar_apply_op: "trie_invar r \<Longrightarrow> trie_invar (apply_op r op)"
  by (cases op) (simp_all only: trie_invar_set trie_invar_del)

lemma trie_invar_apply_ops: "trie_invar r \<Longrightarrow> trie_invar (apply_ops r ops)"
proof (induction ops arbitrary: r)
  case Nil
  then show ?case by (simp add: apply_ops_def)
next
  case (Cons op ops)
  from Cons.IH[OF trie_invar_apply_op[OF Cons.prems]] show ?case
    by (simp add: apply_ops_Cons)
qed

text \<open>The set of keys a sequence of calls leaves stored.\<close>

fun keys_after_op :: "TRIECHAR list set \<Rightarrow> trie_op \<Rightarrow> TRIECHAR list set" where
  "keys_after_op K (Set k v d) = insert k K"
| "keys_after_op K (Del k d) = K - {k}"

definition keys_after :: "trie_op list \<Rightarrow> TRIECHAR list set" where
  "keys_after ops = foldl keys_after_op {} ops"

lemma stored_keys_apply_op:
  assumes "trie_invar r"
  shows "stored_keys (apply_op r op) = keys_after_op (stored_keys r) op"
proof (cases op)
  case (Set k v d)
  let ?new = "\<lparr>key = Some k, val = v, keylen = length k\<rparr>"
  have "root_node (apply_op r (Set k v d)) = fst (set_walk (root_node r) k ?new)"
    unfolding apply_op_Set trie_set_item_root by simp
  then show ?thesis
    unfolding Set stored_keys_def
    by (auto simp: trie_has_key_lookup_item set_walk_lookup_item)
next
  case (Del k d)
  show ?thesis
  proof (cases "trie_has_key (Some r) k")
    case False
    from trie_del_item_absent[OF False, of d] False show ?thesis
      unfolding Del stored_keys_def by (auto simp: apply_op_Del)
  next
    case True
    from assms have inv: "node_invar [] (root_node r)" by (simp add: trie_invar_def)
    from trie_del_item_present[OF True, of d] obtain n rm old fr where
      dw: "del_walk (root_node r) k d = Some (n, rm, old, fr)" and
      r': "root_node (apply_op r (Del k d)) = n"
      by (auto simp: apply_op_Del)
    show ?thesis
      unfolding Del stored_keys_def
      using del_walk_lookup_item[OF inv dw] r'
      by (auto simp: trie_has_key_lookup_item split: if_splits)
  qed
qed

lemma stored_keys_apply_ops:
  "trie_invar r \<Longrightarrow> stored_keys (apply_ops r ops) = foldl keys_after_op (stored_keys r) ops"
proof (induction ops arbitrary: r)
  case Nil
  then show ?case by (simp add: apply_ops_def)
next
  case (Cons op ops)
  from Cons.IH[OF trie_invar_apply_op[OF Cons.prems]] stored_keys_apply_op[OF Cons.prems]
  show ?case by (simp add: apply_ops_Cons)
qed

lemma stored_keys_new: "stored_keys trie_new = {}"
  by (simp add: stored_keys_def trie_has_key_lookup_item trie_new_def lookup_item_dead)


text \<open>
  The edges of the union of the root-to-key paths of a key set: an edge is named by the
  non-empty prefix of a key that ends with it.
\<close>

definition path_edges :: "TRIECHAR list set \<Rightarrow> TRIECHAR list set" where
  "path_edges K = (\<Union>k\<in>K. (\<lambda>i. take i k) ` {1..length k})"

text \<open>The keys stored below a node, and the byte strings that lead to a node.\<close>

definition node_keys :: "TrieNode \<Rightarrow> TRIECHAR list set" where
  "node_keys n = {k. lookup_item n k \<noteq> None}"

definition node_paths :: "TrieNode \<Rightarrow> TRIECHAR list set" where
  "node_paths n = {k. lookup_node n k \<noteq> None}"

lemma node_paths_unfold:
  assumes "distinct (map ch (child n))"
  shows "node_paths n = insert [] (\<Union>m\<in>set (child n). (#) (ch m) ` node_paths m)"
proof (rule set_eqI)
  fix k
  show "k \<in> node_paths n \<longleftrightarrow> k \<in> insert [] (\<Union>m\<in>set (child n). (#) (ch m) ` node_paths m)"
  proof (cases k)
    case Nil
    then show ?thesis by (simp add: node_paths_def)
  next
    case (Cons c cs)
    have "k \<in> node_paths n \<longleftrightarrow> (\<exists>x. lookup_node n (c # cs) = Some x)"
      by (simp add: node_paths_def Cons)
    also have "\<dots> \<longleftrightarrow> (\<exists>x. \<exists>m\<in>set (child n). ch m = c \<and> lookup_node m cs = Some x)"
      by (simp add: lookup_node_Cons_iff[OF assms])
    also have "\<dots> \<longleftrightarrow> k \<in> (\<Union>m\<in>set (child n). (#) (ch m) ` node_paths m)"
      by (auto simp: node_paths_def Cons)
    finally show ?thesis using Cons by simp
  qed
qed

lemma node_keys_unfold:
  assumes "distinct (map ch (child n))"
  shows "node_keys n = (if key (item n) \<noteq> None then {[]} else {}) \<union>
     (\<Union>m\<in>set (child n). (#) (ch m) ` node_keys m)"
proof (rule set_eqI)
  fix k
  show "k \<in> node_keys n \<longleftrightarrow> k \<in> (if key (item n) \<noteq> None then {[]} else {}) \<union>
     (\<Union>m\<in>set (child n). (#) (ch m) ` node_keys m)"
  proof (cases k)
    case Nil
    then show ?thesis by (auto simp: node_keys_def lookup_item_Nil)
  next
    case (Cons c cs)
    have "k \<in> node_keys n \<longleftrightarrow> (\<exists>x. lookup_item n (c # cs) = Some x)"
      by (simp add: node_keys_def Cons)
    also have "\<dots> \<longleftrightarrow> (\<exists>x. \<exists>m\<in>set (child n). ch m = c \<and> lookup_item m cs = Some x)"
      by (simp add: lookup_item_Cons_iff[OF assms])
    also have "\<dots> \<longleftrightarrow> k \<in> (\<Union>m\<in>set (child n). (#) (ch m) ` node_keys m)"
      by (auto simp: node_keys_def Cons)
    finally show ?thesis using Cons by simp
  qed
qed

lemma card_UN_Cons_image:
  "distinct (map ch cs) \<Longrightarrow> \<forall>m\<in>set cs. finite (A m) \<Longrightarrow>
   finite (\<Union>m\<in>set cs. (#) (ch m) ` A m) \<and>
   card (\<Union>m\<in>set cs. (#) (ch m) ` A m) = sum_list (map (\<lambda>m. card (A m)) cs)"
proof (induction cs)
  case Nil
  then show ?case by simp
next
  case (Cons x xs)
  let ?U = "\<Union>m\<in>set xs. (#) (ch m) ` A m"
  from Cons have ih: "finite ?U" "card ?U = sum_list (map (\<lambda>m. card (A m)) xs)" by simp_all
  from Cons.prems have fx: "finite (A x)" and nx: "ch x \<notin> ch ` set xs" by simp_all
  have disj: "(#) (ch x) ` A x \<inter> ?U = {}" using nx by auto
  have cx: "card ((#) (ch x) ` A x) = card (A x)" by (simp add: card_image)
  have "(\<Union>m\<in>set (x # xs). (#) (ch m) ` A m) = (#) (ch x) ` A x \<union> ?U" by simp
  moreover have "card ((#) (ch x) ` A x \<union> ?U) = card (A x) + card ?U"
    using card_Un_disjoint[OF _ ih(1) disj] fx cx by simp
  ultimately show ?case using ih fx by simp
qed

lemma card_node_paths:
  "node_invar rp n \<Longrightarrow> finite (node_paths n) \<and> card (node_paths n) = node_count n"
proof (induction n arbitrary: rp rule: node_count.induct)
  case (1 it cs c f)
  let ?n = "TrieNode it cs c f"
  from "1.prems" have d: "distinct (map ch cs)"
    and ch: "\<forall>m\<in>set cs. node_invar (ch m # rp) m" by simp_all
  from "1.IH" ch have ih: "\<forall>m\<in>set cs. finite (node_paths m)"
    "\<forall>m\<in>set cs. card (node_paths m) = node_count m" by blast+
  from card_UN_Cons_image[OF d ih(1)]
  have u: "finite (\<Union>m\<in>set cs. (#) (ch m) ` node_paths m)"
    "card (\<Union>m\<in>set cs. (#) (ch m) ` node_paths m) = sum_list (map (\<lambda>m. card (node_paths m)) cs)"
    by simp_all
  have "map (\<lambda>m. card (node_paths m)) cs = map node_count cs" using ih(2) by simp
  with u have u2: "card (\<Union>m\<in>set cs. (#) (ch m) ` node_paths m) = sum_list (map node_count cs)"
    by simp
  have e: "node_paths ?n = insert [] (\<Union>m\<in>set cs. (#) (ch m) ` node_paths m)"
    using node_paths_unfold[of ?n] d by simp
  have "[] \<notin> (\<Union>m\<in>set cs. (#) (ch m) ` node_paths m)" by auto
  with u u2 e show ?case by simp
qed

lemma card_node_keys:
  "node_invar rp n \<Longrightarrow> finite (node_keys n) \<and> card (node_keys n) = count_items n"
proof (induction n arbitrary: rp rule: node_count.induct)
  case (1 it cs c f)
  let ?n = "TrieNode it cs c f"
  from "1.prems" have d: "distinct (map ch cs)"
    and ch: "\<forall>m\<in>set cs. node_invar (ch m # rp) m" by simp_all
  from "1.IH" ch have ih: "\<forall>m\<in>set cs. finite (node_keys m)"
    "\<forall>m\<in>set cs. card (node_keys m) = count_items m" by blast+
  from card_UN_Cons_image[OF d ih(1)]
  have u: "finite (\<Union>m\<in>set cs. (#) (ch m) ` node_keys m)"
    "card (\<Union>m\<in>set cs. (#) (ch m) ` node_keys m) = sum_list (map (\<lambda>m. card (node_keys m)) cs)"
    by simp_all
  have "map (\<lambda>m. card (node_keys m)) cs = map count_items cs" using ih(2) by simp
  with u have u2: "card (\<Union>m\<in>set cs. (#) (ch m) ` node_keys m) = sum_list (map count_items cs)"
    by simp
  have e: "node_keys ?n = (if key it \<noteq> None then {[]} else {}) \<union>
      (\<Union>m\<in>set cs. (#) (ch m) ` node_keys m)"
    using node_keys_unfold[of ?n] d by simp
  have "[] \<notin> (\<Union>m\<in>set cs. (#) (ch m) ` node_keys m)" by auto
  with u u2 e show ?case by simp
qed

lemma node_invar_descend:
  "node_invar rp n \<Longrightarrow> lookup_node n p = Some m \<Longrightarrow>
   node_invar (rev p @ rp) m \<and> (p \<noteq> [] \<longrightarrow> key (item m) \<noteq> None \<or> child m \<noteq> [])"
proof (induction p arbitrary: n rp)
  case Nil
  then show ?case by simp
next
  case (Cons c cs)
  from Cons.prems(1) have d: "distinct (map ch (child n))"
    and ch: "\<forall>x\<in>set (child n). (key (item x) \<noteq> None \<or> child x \<noteq> []) \<and> node_invar (ch x # rp) x"
    by (simp_all add: node_invar_unfold[of rp n])
  from Cons.prems(2) obtain x where x: "x \<in> set (child n)" "ch x = c" "lookup_node x cs = Some m"
    unfolding lookup_node_Cons_iff[OF d] by blast
  from ch x have ix: "node_invar (c # rp) x" "key (item x) \<noteq> None \<or> child x \<noteq> []" by auto
  from Cons.IH[OF ix(1) x(3)] ix(2) x(3) show ?case by (cases cs) auto
qed

lemma node_alive:
  "node_invar rp n \<Longrightarrow> key (item n) \<noteq> None \<or> child n \<noteq> [] \<Longrightarrow> \<exists>q. lookup_item n q \<noteq> None"
proof (induction n arbitrary: rp rule: node_count.induct)
  case (1 it cs c f)
  let ?n = "TrieNode it cs c f"
  show ?case
  proof (cases "key it \<noteq> None")
    case True
    then have "lookup_item ?n [] \<noteq> None" by (simp add: lookup_item_Nil)
    then show ?thesis by blast
  next
    case False
    with "1.prems"(2) obtain x where x: "x \<in> set cs" by (cases cs) auto
    from "1.prems"(1) x have d: "distinct (map ch cs)"
      and ix: "node_invar (ch x # rp) x" "key (item x) \<noteq> None \<or> child x \<noteq> []" by auto
    from "1.IH"[OF x ix] obtain q y where "lookup_item x q = Some y" by auto
    with x have "lookup_item ?n (ch x # q) = Some y"
      using lookup_item_Cons_iff[of ?n "ch x" q y] d by auto
    then show ?thesis by (metis option.distinct(1))
  qed
qed

lemma path_edges_node_keys:
  assumes "node_invar rp n"
  shows "path_edges (node_keys n) = node_paths n - {[]}"
proof (rule set_eqI)
  fix p
  show "p \<in> path_edges (node_keys n) \<longleftrightarrow> p \<in> node_paths n - {[]}"
  proof
    assume "p \<in> path_edges (node_keys n)"
    then obtain k i where k: "lookup_item n k \<noteq> None" "1 \<le> i" "i \<le> length k" "p = take i k"
      unfolding path_edges_def node_keys_def by fastforce
    from k(1) have "lookup_node n (take i k @ drop i k) \<noteq> None"
      by (auto simp: lookup_item_def split: option.splits)
    then have "lookup_node n p \<noteq> None"
      unfolding lookup_node_append k(4) by (auto split: option.splits)
    moreover from k have "p \<noteq> []" by auto
    ultimately show "p \<in> node_paths n - {[]}" by (simp add: node_paths_def)
  next
    assume "p \<in> node_paths n - {[]}"
    then obtain m where m: "lookup_node n p = Some m" "p \<noteq> []"
      by (auto simp: node_paths_def)
    from node_invar_descend[OF assms m(1)] m(2)
    have "node_invar (rev p @ rp) m" "key (item m) \<noteq> None \<or> child m \<noteq> []" by simp_all
    from node_alive[OF this] obtain q y where q: "lookup_item m q = Some y" by auto
    have "lookup_item n (p @ q) = Some y"
      using q m(1) by (simp add: lookup_item_def lookup_node_append)
    then have "p @ q \<in> node_keys n" by (simp add: node_keys_def)
    moreover have "p = take (length p) (p @ q)" "1 \<le> length p" "length p \<le> length (p @ q)"
      using m(2) by (simp_all add: Suc_le_eq)
    ultimately show "p \<in> path_edges (node_keys n)"
      unfolding path_edges_def by (metis (no_types, lifting) UN_I atLeastAtMost_iff imageI)
  qed
qed

lemma stored_keys_node_keys: "stored_keys r = node_keys (root_node r)"
  by (simp add: stored_keys_def node_keys_def trie_has_key_lookup_item)

lemma trie_invar_counts:
  assumes "trie_invar r"
  shows "count_items (root_node r) = card (stored_keys r)"
    and "node_count (root_node r) - 1 = card (path_edges (stored_keys r))"
    and "finite (stored_keys r)"
proof -
  from assms have inv: "node_invar [] (root_node r)" by (simp add: trie_invar_def)
  from card_node_keys[OF inv] show "count_items (root_node r) = card (stored_keys r)"
    "finite (stored_keys r)"
    by (simp_all add: stored_keys_node_keys)
  have "[] \<in> node_paths (root_node r)" by (simp add: node_paths_def)
  with card_node_paths[OF inv] path_edges_node_keys[OF inv]
  show "node_count (root_node r) - 1 = card (path_edges (stored_keys r))"
    by (simp add: stored_keys_node_keys)
qed

section \<open>The counters \<^verbatim>\<open>num_items\<close> and \<^verbatim>\<open>num_nodes\<close>\<close>

text \<open>
  Claim C5. After any sequence of \<^verbatim>\<open>trie_set_item\<close> and \<^verbatim>\<open>trie_del_item\<close> calls on a new
  store, the stored keys are the keys set and not deleted afterwards; \<^verbatim>\<open>num_items\<close> is
  their number, which is the number of item-bearing nodes; \<^verbatim>\<open>num_nodes\<close> is the number of
  edges of the union of their paths, which is the number of nodes below the root. The
  counters are 64-bit words: they hold these numbers as words, and as numbers whenever
  these are below \<open>2^64\<close>.
\<close>

theorem counters_after_set_del:
  "trie_num_items (Some (apply_ops trie_new ops)) = of_nat (card (keys_after ops)) \<and>
   trie_num_nodes (Some (apply_ops trie_new ops)) = of_nat (card (path_edges (keys_after ops))) \<and>
   stored_keys (apply_ops trie_new ops) = keys_after ops \<and>
   count_items (root_node (apply_ops trie_new ops)) = card (keys_after ops) \<and>
   node_count (root_node (apply_ops trie_new ops)) - 1 = card (path_edges (keys_after ops)) \<and>
   (card (keys_after ops) < 2 ^ 64 \<longrightarrow>
      unat (trie_num_items (Some (apply_ops trie_new ops))) = card (keys_after ops)) \<and>
   (card (path_edges (keys_after ops)) < 2 ^ 64 \<longrightarrow>
      unat (trie_num_nodes (Some (apply_ops trie_new ops))) = card (path_edges (keys_after ops)))"
proof -
  let ?r = "apply_ops trie_new ops"
  have inv: "trie_invar ?r" by (rule trie_invar_apply_ops[OF trie_invar_new])
  have k: "stored_keys ?r = keys_after ops"
    using stored_keys_apply_ops[OF trie_invar_new, of ops]
    by (simp add: stored_keys_new keys_after_def)
  from trie_invar_counts[OF inv] k
  have c: "count_items (root_node ?r) = card (keys_after ops)"
    "node_count (root_node ?r) - 1 = card (path_edges (keys_after ops))" by simp_all
  from inv c have w: "num_items ?r = of_nat (card (keys_after ops))"
    "num_nodes ?r = of_nat (card (path_edges (keys_after ops)))"
    by (simp_all add: trie_invar_def)
  have u1: "card (keys_after ops) < 2 ^ 64 \<longrightarrow> unat (num_items ?r) = card (keys_after ops)"
    using w(1) by (simp add: unat_of_nat)
  have u2: "card (path_edges (keys_after ops)) < 2 ^ 64 \<longrightarrow>
      unat (num_nodes ?r) = card (path_edges (keys_after ops))"
    using w(2) by (simp add: unat_of_nat)
  show ?thesis using k c w u1 u2 by (simp add: trie_num_items_def trie_num_nodes_def)
qed

text \<open>Scenario 3 of the specification: \<open>car\<close> and \<open>cat\<close> are set, \<open>car\<close> is deleted.\<close>

definition example_ops :: "trie_op list" where
  "example_ops = [Set ''car'' (Some 1) True, Set ''cat'' (Some 2) True, Del ''car'' True]"

theorem counters_after_set_del_witness:
  "card (keys_after example_ops) < 2 ^ 64 \<and>
   unat (trie_num_items (Some (apply_ops trie_new example_ops))) = card (keys_after example_ops) \<and>
   card (path_edges (keys_after example_ops)) < 2 ^ 64 \<and>
   unat (trie_num_nodes (Some (apply_ops trie_new example_ops)))
     = card (path_edges (keys_after example_ops)) \<and>
   card (keys_after example_ops) = 1 \<and> card (path_edges (keys_after example_ops)) = 3"
proof -
  have k: "keys_after example_ops = {''cat''}"
    by (auto simp: keys_after_def example_ops_def)
  have "{1..length ''cat''} = {1, 2, 3}" by auto
  then have p: "path_edges (keys_after example_ops) = {''c'', ''ca'', ''cat''}"
    unfolding k path_edges_def by simp
  have h1: "card (keys_after example_ops) < 2 ^ 64" unfolding k by simp
  have h2: "card (path_edges (keys_after example_ops)) < 2 ^ 64" unfolding p by simp
  have c: "card (keys_after example_ops) = 1" "card (path_edges (keys_after example_ops)) = 3"
    unfolding p unfolding k by simp_all
  from counters_after_set_del[of example_ops] h1 h2 c show ?thesis by simp
qed


section \<open>Overwriting a stored key\<close>

text \<open>The assignment of the three fields of \<^verbatim>\<open>node->item\<close>.\<close>

definition set_item :: "TrieItem \<Rightarrow> TrieNode \<Rightarrow> TrieNode" where
  "set_item new n = TrieNode new (child n) (ch n) (flags n)"

lemma set_walk_existing:
  "get_node_from n k = Some p \<Longrightarrow>
   fst (set_walk n k new) = node_upd (set_item new) p n \<and> fst (snd (set_walk n k new)) = 0"
proof (induction k arbitrary: n p)
  case Nil
  then show ?case by (simp add: set_item_def)
next
  case (Cons c cs)
  from Cons.prems obtain i q where i: "find_child (child n) c = Some i"
    and q: "get_node_from (child n ! i) cs = Some q" and p: "p = i # q"
    by (auto simp: trienode_get_child_def split: option.splits)
  from find_child_SomeD[OF i] have il: "i < length (child n)" by simp
  obtain m cr old where sw: "set_walk (child n ! i) cs new = (m, cr, old)"
    by (cases "set_walk (child n ! i) cs new")
  from Cons.IH[OF q] sw i il p show ?case
    by (simp add: trienode_get_child_def)
qed

lemma node_upd_sel:
  assumes "\<And>m. ch (f m) = ch m" "\<And>m. flags (f m) = flags m" "\<And>m. child (f m) = child m"
  shows "ch (node_upd f p n) = ch n \<and> flags (node_upd f p n) = flags n \<and>
     length (child (node_upd f p n)) = length (child n) \<and>
     (p \<noteq> [] \<longrightarrow> item (node_upd f p n) = item n)"
  by (cases p) (simp_all add: assms)

lemma set_item_sel [simp]:
  "ch (set_item new m) = ch m" "flags (set_item new m) = flags m"
  "child (set_item new m) = child m" "item (set_item new m) = new"
  by (simp_all add: set_item_def)

lemma node_at_set_item_frame:
  "map_option (\<lambda>m. (ch m, flags m, length (child m))) (node_at (node_upd (set_item new) p n) q) =
     map_option (\<lambda>m. (ch m, flags m, length (child m))) (node_at n q) \<and>
   (q \<noteq> p \<longrightarrow> map_option item (node_at (node_upd (set_item new) p n) q) =
     map_option item (node_at n q))"
proof (cases "node_at n q")
  case None
  then show ?thesis by (simp add: node_at_upd)
next
  case (Some m)
  have s: "ch (node_upd (set_item new) (drop (length q) p) m) = ch m \<and>
     flags (node_upd (set_item new) (drop (length q) p) m) = flags m \<and>
     length (child (node_upd (set_item new) (drop (length q) p) m)) = length (child m) \<and>
     (drop (length q) p \<noteq> [] \<longrightarrow> item (node_upd (set_item new) (drop (length q) p) m) = item m)"
    by (rule node_upd_sel) simp_all
  have "q \<noteq> p \<Longrightarrow> take (length q) p = q \<Longrightarrow> drop (length q) p \<noteq> []"
    by (metis append_Nil2 append_take_drop_id)
  with s Some show ?thesis by (auto simp: node_at_upd)
qed

lemma get_node_from_valid:
  "get_node_from n k = Some p \<Longrightarrow> \<exists>m. node_at n p = Some m"
proof (induction k arbitrary: n p)
  case Nil
  then show ?case by simp
next
  case (Cons c cs)
  from Cons.prems obtain i q where i: "find_child (child n) c = Some i"
    and q: "get_node_from (child n ! i) cs = Some q" and p: "p = i # q"
    by (auto simp: trienode_get_child_def split: option.splits)
  from find_child_SomeD[OF i] Cons.IH[OF q] p show ?case by simp
qed

text \<open>
  Claim C10. In a store that satisfies the invariant, \<^verbatim>\<open>trie_set_item\<close> on a stored key
  \<open>k\<close> returns 0 and changes the store in one place: the item of the node of \<open>k\<close>, whose
  key and \<^verbatim>\<open>keylen\<close> are rewritten with the same contents and whose value becomes \<open>v\<close>.
  \<^verbatim>\<open>num_nodes\<close>, \<^verbatim>\<open>num_items\<close>, \<^verbatim>\<open>state_id\<close> and \<^verbatim>\<open>memsize\<close> are unchanged; every node keeps
  its byte, its flags and its number of children; every other node keeps its item, and
  \<^verbatim>\<open>trie_get_item\<close> returns the same for every other key.
\<close>

theorem overwrite_changes_only_the_value:
  assumes "trie_invar r" and "trie_has_key (Some r) k"
  shows "case trie_set_item (Some r) (Some k) v d of
      (rc, s, freed) \<Rightarrow>
        \<exists>p old r'.
          trie_get_node (Some r) k = Some p \<and>
          trie_get_item (Some r) k = Some old \<and> key old = Some k \<and> keylen old = length k \<and>
          rc = 0 \<and> s = Some r' \<and>
          r' = r\<lparr>root_node := node_upd (set_item \<lparr>key = Some k, val = v, keylen = length k\<rparr>) p
                               (root_node r)\<rparr> \<and>
          trie_num_nodes s = trie_num_nodes (Some r) \<and>
          trie_num_items s = trie_num_items (Some r) \<and>
          state_id r' = state_id r \<and> memsize r' = memsize r \<and>
          trie_get_item s k = Some \<lparr>key = Some k, val = v, keylen = length k\<rparr> \<and>
          (\<forall>k'. k' \<noteq> k \<longrightarrow> trie_get_item s k' = trie_get_item (Some r) k') \<and>
          (\<forall>q. map_option (\<lambda>m. (ch m, flags m, length (child m))) (node_at (root_node r') q) =
                map_option (\<lambda>m. (ch m, flags m, length (child m))) (node_at (root_node r) q)) \<and>
          (\<forall>q. q \<noteq> p \<longrightarrow> map_option item (node_at (root_node r') q) =
                map_option item (node_at (root_node r) q))"
proof -
  let ?new = "\<lparr>key = Some k, val = v, keylen = length k\<rparr>"
  from assms(1) have inv: "node_invar [] (root_node r)" by (simp add: trie_invar_def)
  from assms(2) obtain p m where p: "get_node_from (root_node r) k = Some p"
    and m: "node_at (root_node r) p = Some m" and km: "key (item m) \<noteq> None"
    by (auto simp: trie_has_key_def deref_def trie_get_node_def split: option.splits)
  have lk: "lookup_node (root_node r) k = Some m" using p m by (simp add: lookup_node_def)
  from node_invar_descend[OF inv lk] km
  have old: "key (item m) = Some k" "keylen (item m) = length k"
    by (simp_all add: node_invar_unfold[of "rev k" m])
  have gi: "trie_get_item (Some r) k = Some (item m)"
    using lk km by (simp add: trie_get_item_lookup)
  from set_walk_existing[OF p, of ?new]
  have sw: "fst (set_walk (root_node r) k ?new) = node_upd (set_item ?new) p (root_node r)"
    "fst (snd (set_walk (root_node r) k ?new)) = 0" by simp_all
  let ?r' = "r\<lparr>root_node := node_upd (set_item ?new) p (root_node r)\<rparr>"
  have root: "fst (snd (trie_set_item (Some r) (Some k) v d)) = Some ?r'"
    unfolding trie_set_item_root using sw assms(2) gi old by simp
  have g1: "trie_get_item (Some ?r') k = Some ?new"
    using trie_get_item_after_set[of r k v d] root by simp
  have g2: "\<forall>k'. k' \<noteq> k \<longrightarrow> trie_get_item (Some ?r') k' = trie_get_item (Some r) k'"
    using set_walk_lookup_item[of "root_node r" k ?new] sw(1)
    by (simp add: trie_get_item_lookup_item)
  have fr: "\<forall>q. map_option (\<lambda>m. (ch m, flags m, length (child m))) (node_at (root_node ?r') q) =
                map_option (\<lambda>m. (ch m, flags m, length (child m))) (node_at (root_node r) q)"
    "\<forall>q. q \<noteq> p \<longrightarrow> map_option item (node_at (root_node ?r') q) =
                map_option item (node_at (root_node r) q)"
    using node_at_set_item_frame[of ?new p "root_node r"] by simp_all
  obtain rc s freed where t: "trie_set_item (Some r) (Some k) v d = (rc, s, freed)"
    by (cases "trie_set_item (Some r) (Some k) v d")
  have rc: "rc = 0" using trie_set_item_rc[of r k v d] t by simp
  have s: "s = Some ?r'" using root t by simp
  have "\<exists>p old r'.
          trie_get_node (Some r) k = Some p \<and>
          trie_get_item (Some r) k = Some old \<and> key old = Some k \<and> keylen old = length k \<and>
          rc = 0 \<and> s = Some r' \<and>
          r' = r\<lparr>root_node := node_upd (set_item \<lparr>key = Some k, val = v, keylen = length k\<rparr>) p
                               (root_node r)\<rparr> \<and>
          trie_num_nodes s = trie_num_nodes (Some r) \<and>
          trie_num_items s = trie_num_items (Some r) \<and>
          state_id r' = state_id r \<and> memsize r' = memsize r \<and>
          trie_get_item s k = Some \<lparr>key = Some k, val = v, keylen = length k\<rparr> \<and>
          (\<forall>k'. k' \<noteq> k \<longrightarrow> trie_get_item s k' = trie_get_item (Some r) k') \<and>
          (\<forall>q. map_option (\<lambda>m. (ch m, flags m, length (child m))) (node_at (root_node r') q) =
                map_option (\<lambda>m. (ch m, flags m, length (child m))) (node_at (root_node r) q)) \<and>
          (\<forall>q. q \<noteq> p \<longrightarrow> map_option item (node_at (root_node r') q) =
                map_option item (node_at (root_node r) q))"
    apply (rule exI[of _ p], rule exI[of _ "item m"], rule exI[of _ ?r'])
    using p gi old rc s g1 g2 fr
    by (simp add: trie_get_node_def trie_num_nodes_def trie_num_items_def)
  with t show ?thesis by simp
qed


theorem overwrite_changes_only_the_value_witness:
  "trie_invar store_a \<and> trie_has_key (Some store_a) ''a'' \<and>
   (case trie_set_item (Some store_a) (Some ''a'') (Some 9) True of
      (rc, s, freed) \<Rightarrow>
        rc = 0 \<and> trie_num_nodes s = trie_num_nodes (Some store_a) \<and>
        trie_num_items s = trie_num_items (Some store_a) \<and>
        map_option state_id s = Some (state_id store_a) \<and>
        map_option memsize s = Some (memsize store_a) \<and>
        trie_get_item s ''a'' = Some \<lparr>key = Some ''a'', val = Some 9, keylen = 1\<rparr>)"
proof -
  have h1: "trie_invar store_a"
    unfolding store_a_def by (rule trie_invar_apply_ops[OF trie_invar_new])
  have h2: "trie_has_key (Some store_a) ''a''"
    by (simp add: store_a_eval)
       (simp add: trie_has_key_def trie_get_node_def deref_def trienode_get_child_def)
  from overwrite_changes_only_the_value[OF h1 h2, of "Some 9" True] h1 h2
  show ?thesis by (auto split: prod.splits)
qed

section \<open>Pointers and keys\<close>

text \<open>The bytes on the way from a node down to the node a pointer designates.\<close>

fun path_key :: "TrieNode \<Rightarrow> node_ptr \<Rightarrow> TRIECHAR list" where
  "path_key n [] = []"
| "path_key n (i # p) = ch (child n ! i) # path_key (child n ! i) p"

text \<open>
  What a consumer reads through the \<^verbatim>\<open>query\<close> or \<^verbatim>\<open>target\<close> pointer of a search result:
  the item of the node, and its key.
\<close>

definition read_item :: "TrieRoot \<Rightarrow> node_ptr option \<Rightarrow> TrieItem option" where
  "read_item r p = map_option item (deref (Some r) p)"

definition read_key :: "TrieRoot \<Rightarrow> node_ptr option \<Rightarrow> TRIECHAR list option" where
  "read_key r p = (case read_item r p of None \<Rightarrow> None | Some it \<Rightarrow> key it)"

text \<open>Pointers to distinct nodes none of which lies below another.\<close>

definition incomparable :: "node_ptr list \<Rightarrow> bool" where
  "incomparable ps = (distinct ps \<and> (\<forall>x\<in>set ps. \<forall>y\<in>set ps. prefix x y \<longrightarrow> x = y))"

lemma node_at_length_path_key:
  "node_at n p = Some m \<Longrightarrow> length (path_key n p) = length p"
  by (induction p arbitrary: n) (auto split: if_splits)

lemma path_key_append:
  "node_at n p = Some m \<Longrightarrow> path_key n (p @ q) = path_key n p @ path_key m q"
  by (induction p arbitrary: n) (auto split: if_splits)

lemma get_node_from_path_key:
  "get_node_from n k = Some p \<Longrightarrow> path_key n p = k"
proof (induction k arbitrary: n p)
  case Nil
  then show ?case by simp
next
  case (Cons c cs)
  from Cons.prems obtain i q where i: "find_child (child n) c = Some i"
    and q: "get_node_from (child n ! i) cs = Some q" and p: "p = i # q"
    by (auto simp: trienode_get_child_def split: option.splits)
  from find_child_SomeD[OF i] Cons.IH[OF q] p show ?case by simp
qed

lemma find_child_nth:
  "distinct (map ch cs) \<Longrightarrow> i < length cs \<Longrightarrow> find_child cs (ch (cs ! i)) = Some i"
proof -
  assume d: "distinct (map ch cs)" and i: "i < length cs"
  from find_child_distinct[OF d nth_mem[OF i]] obtain j where
    j: "find_child cs (ch (cs ! i)) = Some j" "cs ! j = cs ! i" by auto
  from find_child_SomeD[OF j(1)] have "j < length cs" by simp
  with d i j(2) have "j = i"
    by (metis distinct_map nth_eq_iff_index_eq)
  with j(1) show ?thesis by simp
qed

lemma node_invar_node_at:
  "node_invar rp n \<Longrightarrow> node_at n p = Some m \<Longrightarrow>
   get_node_from n (path_key n p) = Some p \<and> node_invar (rev (path_key n p) @ rp) m"
proof (induction p arbitrary: n rp)
  case Nil
  then show ?case by simp
next
  case (Cons i p)
  from Cons.prems(2) have i: "i < length (child n)" and m: "node_at (child n ! i) p = Some m"
    by (auto split: if_splits)
  from Cons.prems(1) i have d: "distinct (map ch (child n))"
    and ci: "node_invar (ch (child n ! i) # rp) (child n ! i)"
    by (auto simp: node_invar_unfold[of rp n])
  from Cons.IH[OF ci m] find_child_nth[OF d i] show ?case
    by (simp add: trienode_get_child_def)
qed

lemma node_invar_key_at:
  assumes "node_invar [] n" "node_at n p = Some m" "key (item m) \<noteq> None"
  shows "key (item m) = Some (path_key n p) \<and> keylen (item m) = length p"
proof -
  from node_invar_node_at[OF assms(1,2)] have "node_invar (rev (path_key n p)) m" by simp
  with assms(3) have "key (item m) = Some (rev (rev (path_key n p))) \<and>
      keylen (item m) = length (rev (path_key n p))"
    by (cases m) auto
  with node_at_length_path_key[OF assms(2)] show ?thesis by simp
qed

lemma path_key_inj:
  assumes "node_invar rp n" "node_at n p = Some m" "node_at n q = Some m'"
    "path_key n p = path_key n q"
  shows "p = q"
proof -
  from node_invar_node_at[OF assms(1,2)]
  have "get_node_from n (path_key n p) = Some p" by (rule conjunct1)
  moreover from node_invar_node_at[OF assms(1,3)]
  have "get_node_from n (path_key n q) = Some q" by (rule conjunct1)
  ultimately show ?thesis unfolding assms(4) by (rule option.inject[THEN iffD1, OF trans[OF sym]])
qed

lemma trie_has_key_iff_ptr:
  assumes "node_invar [] (root_node r)"
  shows "trie_has_key (Some r) k \<longleftrightarrow>
     (\<exists>p m. node_at (root_node r) p = Some m \<and> key (item m) \<noteq> None \<and> path_key (root_node r) p = k)"
proof
  assume "trie_has_key (Some r) k"
  then obtain p m where p: "get_node_from (root_node r) k = Some p"
    and m: "node_at (root_node r) p = Some m" "key (item m) \<noteq> None"
    by (auto simp: trie_has_key_def deref_def trie_get_node_def split: option.splits)
  from get_node_from_path_key[OF p] m
  show "\<exists>p m. node_at (root_node r) p = Some m \<and> key (item m) \<noteq> None \<and>
      path_key (root_node r) p = k" by blast
next
  assume "\<exists>p m. node_at (root_node r) p = Some m \<and> key (item m) \<noteq> None \<and>
      path_key (root_node r) p = k"
  then obtain p m where m: "node_at (root_node r) p = Some m" "key (item m) \<noteq> None"
    and k: "path_key (root_node r) p = k" by blast
  from node_invar_node_at[OF assms m(1)] k have "get_node_from (root_node r) k = Some p" by simp
  with m show "trie_has_key (Some r) k"
    by (simp add: trie_has_key_def deref_def trie_get_node_def)
qed

lemma read_item_ptr:
  assumes "node_invar [] (root_node r)" "node_at (root_node r) p = Some m" "key (item m) \<noteq> None"
  shows "read_item r (Some p) = trie_get_item (Some r) (path_key (root_node r) p)"
    and "read_key r (Some p) = Some (path_key (root_node r) p)"
proof -
  from node_invar_node_at[OF assms(1,2)]
  have g: "get_node_from (root_node r) (path_key (root_node r) p) = Some p" by simp
  with assms(2,3) show "read_item r (Some p) = trie_get_item (Some r) (path_key (root_node r) p)"
    by (simp add: read_item_def trie_get_item_def deref_def trie_get_node_def)
  from node_invar_key_at[OF assms] assms(2)
  show "read_key r (Some p) = Some (path_key (root_node r) p)"
    by (simp add: read_key_def read_item_def deref_def)
qed

section \<open>What exhausting an iterator collects\<close>

text \<open>
  If every \<^verbatim>\<open>trieiter_next\<close> in a state that satisfies \<open>Inv\<close> either ends with nothing
  pending, or returns one pending result and leaves the others pending, then exhausting
  the iterator returns the pending results, each once.
\<close>

lemma exhaust_collects:
  fixes Inv :: "TrieRoot \<Rightarrow> TrieIter \<Rightarrow> bool"
    and P :: "TrieRoot \<Rightarrow> TrieIter \<Rightarrow> TrieSearchResult set"
    and Q :: "TrieRoot \<Rightarrow> TrieIter \<Rightarrow> bool"
  assumes step: "\<And>r it. Inv r it \<Longrightarrow>
      \<exists>res r' it'. trieiter_next r it = Some (res, r', it') \<and>
        (case res of
           None \<Rightarrow> P r it = {} \<and> Q r' it'
         | Some x \<Rightarrow> Inv r' it' \<and> x \<notin> P r' it' \<and> P r it = insert x (P r' it'))"
    and "Inv r it"
  shows "\<exists>rs r' it'. trieiter_exhaust r it = Some (rs, r', it') \<and> distinct rs \<and>
     set rs = P r it \<and> Q r' it'"
  using assms(2)
proof (induction r it rule: trieiter_exhaust.induct)
  case (1 r it)
  from step[OF "1.prems"] obtain res r' it' where
    nx: "trieiter_next r it = Some (res, r', it')" and
    c: "(case res of
           None \<Rightarrow> P r it = {} \<and> Q r' it'
         | Some x \<Rightarrow> Inv r' it' \<and> x \<notin> P r' it' \<and> P r it = insert x (P r' it'))"
    by blast
  show ?case
  proof (cases res)
    case None
    with nx c show ?thesis by (simp add: trieiter_exhaust.simps[of r it])
  next
    case (Some x)
    with c have i: "Inv r' it'" and x: "x \<notin> P r' it'" and p: "P r it = insert x (P r' it')"
      by simp_all
    from "1.IH"[OF nx refl _ refl i] Some obtain rs r'' it'' where
      e: "trieiter_exhaust r' it' = Some (rs, r'', it'')" "distinct rs" "set rs = P r' it'"
      "Q r'' it''" by auto
    with nx Some x p show ?thesis
      by (simp add: trieiter_exhaust.simps[of r it])
  qed
qed


section \<open>The suffix iterator\<close>

text \<open>The fields of an iterator other than its state array.\<close>

definition iter_config ::
  "TrieIter \<Rightarrow> nat \<times> int \<times> int \<times> int \<times> bool \<times> int \<times> int \<times> node_ptr list \<times> TrieIterNextFunc" where
  "iter_config it =
     (self it, maxhd it, target_depth it, len_query it, is_dirty it, trie_state_id it,
      errcode it, stack it, next_func it)"

lemma iter_config_push [simp]:
  "iter_config (trieiter_push_state it nd q h d) = iter_config it"
  by (simp add: iter_config_def trieiter_push_state_def)

lemma iter_config_states [simp]: "iter_config (it\<lparr>states := sts\<rparr>) = iter_config it"
  by (simp add: iter_config_def)

lemma pop_state_Cons:
  "states it = s # rest \<Longrightarrow> trieiter_pop_state it = Some (s, it\<lparr>states := rest\<rparr>)"
  by (simp add: trieiter_pop_state_def)

lemma pop_state_Nil: "states it = [] \<Longrightarrow> trieiter_pop_state it = None"
  by (simp add: trieiter_pop_state_def)

text \<open>The state pushed for the child with index \<open>j\<close>, at distance \<open>h\<close>.\<close>

definition child_state :: "TrieIterState \<Rightarrow> int \<Rightarrow> nat \<Rightarrow> TrieIterState" where
  "child_state st h j =
     \<lparr>s_node = s_node st @ [j], s_query = s_query st, s_hd = h, s_depth = s_depth st + 1\<rparr>"

lemma upt_add_Suc: "[i..<i + Suc n] = i # [Suc i..<Suc i + n]"
  by (subst upt_rec) simp

lemma suffixes_push_children_states:
  "states (suffixes_push_children it st cs i) =
     rev (map (child_state st 0) [i..<i + length cs]) @ states it \<and>
   iter_config (suffixes_push_children it st cs i) = iter_config it"
proof (induction cs arbitrary: it i)
  case Nil
  then show ?case by simp
next
  case (Cons c cs)
  have "[i..<i + length (c # cs)] = i # [Suc i..<Suc i + length cs]"
    using upt_add_Suc[of i "length cs"] by simp
  with Cons.IH[of "trieiter_push_state it (s_node st @ [i]) (s_query st) 0 (s_depth st + 1)" "Suc i"]
  show ?case by (simp add: child_state_def)
qed

text \<open>
  The states of a suffix iterator point to existing nodes, none below another, and carry
  the same query pointer. Pending are the item-bearing nodes at or below these nodes.
\<close>

definition suf_inv :: "TrieRoot \<Rightarrow> node_ptr \<Rightarrow> TrieIterState list \<Rightarrow> bool" where
  "suf_inv r q sts =
     (incomparable (map s_node sts) \<and>
      (\<forall>s\<in>set sts. s_query s = q \<and> node_at (root_node r) (s_node s) \<noteq> None))"

definition suf_pending :: "TrieRoot \<Rightarrow> TrieIterState list \<Rightarrow> TrieSearchResult set" where
  "suf_pending r sts =
     {triesearchresult_new (Some (s_query s)) (Some (s_node s @ d)) 0 | s d.
        s \<in> set sts \<and> (\<exists>m. node_at (root_node r) (s_node s @ d) = Some m \<and> key (item m) \<noteq> None)}"

lemma suf_pending_append:
  "suf_pending r (xs @ ys) = suf_pending r xs \<union> suf_pending r ys"
  by (auto simp: suf_pending_def)

lemma suf_pending_Cons:
  "suf_pending r (x # ys) = suf_pending r [x] \<union> suf_pending r ys"
  using suf_pending_append[of r "[x]" ys] by simp

lemma suf_pending_Nil [simp]: "suf_pending r [] = {}"
  by (simp add: suf_pending_def)

lemma suf_pending_expand:
  assumes "node_at (root_node r) (s_node s) = Some n"
  shows "suf_pending r [s] =
     (if key (item n) \<noteq> None
      then {triesearchresult_new (Some (s_query s)) (Some (s_node s)) 0} else {}) \<union>
     suf_pending r (rev (map (child_state s h) [0..<length (child n)]))"
proof (rule set_eqI)
  fix x
  let ?R = "(if key (item n) \<noteq> None
      then {triesearchresult_new (Some (s_query s)) (Some (s_node s)) 0} else {}) \<union>
     suf_pending r (rev (map (child_state s h) [0..<length (child n)]))"
  show "x \<in> suf_pending r [s] \<longleftrightarrow> x \<in> ?R"
  proof
    assume "x \<in> suf_pending r [s]"
    then obtain d m where x: "x = triesearchresult_new (Some (s_query s)) (Some (s_node s @ d)) 0"
      and m: "node_at (root_node r) (s_node s @ d) = Some m" "key (item m) \<noteq> None"
      by (auto simp: suf_pending_def)
    show "x \<in> ?R"
    proof (cases d)
      case Nil
      with x m assms show ?thesis by simp
    next
      case (Cons j d')
      from m(1) assms Cons have j: "j < length (child n)"
        and m': "node_at (root_node r) ((s_node s @ [j]) @ d') = Some m"
        by (auto simp: node_at_append split: if_splits)
      have "x \<in> suf_pending r (rev (map (child_state s h) [0..<length (child n)]))"
        unfolding suf_pending_def using x m' m(2) j Cons
        by (auto simp: child_state_def intro!: exI[of _ "child_state s h j"] exI[of _ d'])
      then show ?thesis by simp
    qed
  next
    assume "x \<in> ?R"
    then consider (a) "key (item n) \<noteq> None"
        "x = triesearchresult_new (Some (s_query s)) (Some (s_node s)) 0"
      | (b) "x \<in> suf_pending r (rev (map (child_state s h) [0..<length (child n)]))"
      by (auto split: if_splits)
    then show "x \<in> suf_pending r [s]"
    proof cases
      case a
      with assms show ?thesis
        by (auto simp: suf_pending_def intro!: exI[of _ s] exI[of _ "[]"])
    next
      case b
      then obtain j d m where j: "j < length (child n)"
        and x: "x = triesearchresult_new (Some (s_query s)) (Some ((s_node s @ [j]) @ d)) 0"
        and m: "node_at (root_node r) ((s_node s @ [j]) @ d) = Some m" "key (item m) \<noteq> None"
        by (auto simp: suf_pending_def child_state_def)
      then show ?thesis
        by (auto simp: suf_pending_def intro!: exI[of _ s] exI[of _ "j # d"])
    qed
  qed
qed


lemma incomparable_tl: "incomparable (p # ps) \<Longrightarrow> incomparable ps"
  by (auto simp: incomparable_def)

lemma incomparable_children:
  assumes "incomparable (p # ps)" "distinct ks" "\<forall>k\<in>set ks. \<exists>j. k = p @ [j]"
  shows "incomparable (ks @ ps)"
proof -
  from assms(1) have dps: "distinct ps" and pn: "p \<notin> set ps"
    and inc: "\<And>x y. x \<in> set (p # ps) \<Longrightarrow> y \<in> set (p # ps) \<Longrightarrow> prefix x y \<Longrightarrow> x = y"
    by (auto simp: incomparable_def)
  have no_above: "\<And>y. y \<in> set ps \<Longrightarrow> \<not> prefix p y"
    using inc pn by (metis list.set_intros(1) list.set_intros(2))
  have no_below: "\<And>x. x \<in> set ps \<Longrightarrow> \<not> prefix x p"
    using inc pn by (metis list.set_intros(1) list.set_intros(2))
  have kp: "\<And>k. k \<in> set ks \<Longrightarrow> k \<notin> set ps"
  proof
    fix k assume "k \<in> set ks" "k \<in> set ps"
    with assms(3) obtain j where "k = p @ [j]" by auto
    with no_above[OF \<open>k \<in> set ps\<close>] show False by simp
  qed
  have d: "distinct (ks @ ps)" using assms(2) dps kp by auto
  have "\<And>x y. x \<in> set (ks @ ps) \<Longrightarrow> y \<in> set (ks @ ps) \<Longrightarrow> prefix x y \<Longrightarrow> x = y"
  proof -
    fix x y assume x: "x \<in> set (ks @ ps)" and y: "y \<in> set (ks @ ps)" and pr: "prefix x y"
    consider (kk) "x \<in> set ks" "y \<in> set ks" | (kp) "x \<in> set ks" "y \<in> set ps"
      | (pk) "x \<in> set ps" "y \<in> set ks" | (pp) "x \<in> set ps" "y \<in> set ps"
      using x y by auto
    then show "x = y"
    proof cases
      case kk
      with assms(3) obtain i j where "x = p @ [i]" "y = p @ [j]" by blast
      with pr show ?thesis by simp
    next
      case kp
      with assms(3) obtain i where "x = p @ [i]" by blast
      with pr have "prefix p y" by (metis append_prefixD)
      with no_above[OF kp(2)] show ?thesis by simp
    next
      case pk
      with assms(3) obtain j where j: "y = p @ [j]" by blast
      with pr have "x = p @ [j] \<or> prefix x p" by (simp add: prefix_snoc)
      with no_below[OF pk(1)] j show ?thesis by auto
    next
      case pp
      with inc pr show ?thesis by simp
    qed
  qed
  with d show ?thesis by (auto simp: incomparable_def)
qed

lemma child_state_sel [simp]:
  "s_node (child_state st h j) = s_node st @ [j]"
  "s_query (child_state st h j) = s_query st"
  "s_hd (child_state st h j) = h"
  "s_depth (child_state st h j) = s_depth st + 1"
  by (simp_all add: child_state_def)

lemma suf_inv_expand:
  assumes "suf_inv r q (s # rest)" "node_at (root_node r) (s_node s) = Some n"
  shows "suf_inv r q (rev (map (child_state s h) [0..<length (child n)]) @ rest)"
proof -
  let ?ks = "rev (map (child_state s h) [0..<length (child n)])"
  from assms(1) have inc: "incomparable (s_node s # map s_node rest)"
    and q: "\<forall>x\<in>set (s # rest). s_query x = q \<and> node_at (root_node r) (s_node x) \<noteq> None"
    by (simp_all add: suf_inv_def)
  have m: "map s_node ?ks = rev (map (\<lambda>j. s_node s @ [j]) [0..<length (child n)])"
    by (simp add: rev_map comp_def)
  have "incomparable (map s_node ?ks @ map s_node rest)"
    unfolding m by (rule incomparable_children[OF inc]) (auto simp: distinct_map inj_on_def)
  moreover have "\<forall>x\<in>set ?ks. s_query x = q \<and> node_at (root_node r) (s_node x) \<noteq> None"
    using q assms(2) by (auto simp: node_at_append)
  ultimately show ?thesis using q by (auto simp: suf_inv_def)
qed

lemma suf_pending_fresh:
  assumes "suf_inv r q (s # rest)"
  shows "triesearchresult_new (Some (s_query s)) (Some (s_node s)) 0 \<notin>
     suf_pending r (rev (map (child_state s h) [0..<k]) @ rest)"
proof
  assume "triesearchresult_new (Some (s_query s)) (Some (s_node s)) 0 \<in>
     suf_pending r (rev (map (child_state s h) [0..<k]) @ rest)"
  then obtain s' d where s': "s' \<in> set (rev (map (child_state s h) [0..<k]) @ rest)"
    and e: "s_node s = s_node s' @ d"
    by (auto simp: suf_pending_def triesearchresult_new_def)
  from assms have inc: "incomparable (s_node s # map s_node rest)" by (simp add: suf_inv_def)
  from s' consider (k) j where "s' = child_state s h j" | (r) "s' \<in> set rest" by auto
  then show False
  proof cases
    case k
    with e show ?thesis by simp
  next
    case r
    from e have "prefix (s_node s') (s_node s)" by (simp add: prefixI)
    with inc r have "s_node s' = s_node s" by (auto simp: incomparable_def)
    with inc r show ?thesis by (auto simp: incomparable_def)
  qed
qed

lemma suffixes_next_step:
  "suf_inv r q (states it) \<Longrightarrow>
   \<exists>res it'. trieiter_suffixes_next r it = Some (res, it') \<and>
     iter_config it' = iter_config it \<and> suf_inv r q (states it') \<and>
     (case res of
        None \<Rightarrow> suf_pending r (states it) = {}
      | Some x \<Rightarrow> x \<notin> suf_pending r (states it') \<and>
          suf_pending r (states it) = insert x (suf_pending r (states it')))"
proof (induction r it rule: trieiter_suffixes_next.induct)
  case (1 r it)
  show ?case
  proof (cases "states it")
    case Nil
    then show ?thesis
      using "1.prems"
      by (simp add: trieiter_suffixes_next.simps[of r it] pop_state_Nil)
  next
    case (Cons s rest)
    note pop = pop_state_Cons[OF Cons]
    from "1.prems" Cons have inv: "suf_inv r q (s # rest)" by simp
    then obtain n where n: "node_at (root_node r) (s_node s) = Some n"
      by (auto simp: suf_inv_def)
    let ?it2 = "suffixes_push_children (it\<lparr>states := rest\<rparr>) s (child n) 0"
    let ?ks = "rev (map (child_state s 0) [0..<length (child n)])"
    have st2: "states ?it2 = ?ks @ rest" and cf2: "iter_config ?it2 = iter_config it"
      using suffixes_push_children_states[of "it\<lparr>states := rest\<rparr>" s "child n" 0] by simp_all
    have inv2: "suf_inv r q (states ?it2)"
      unfolding st2 by (rule suf_inv_expand[OF inv n])
    have pend: "suf_pending r (states it) =
        (if key (item n) \<noteq> None
         then {triesearchresult_new (Some (s_query s)) (Some (s_node s)) 0} else {}) \<union>
        suf_pending r (states ?it2)"
      unfolding st2 Cons
      using suf_pending_expand[OF n, of 0] suf_pending_Cons[of r s rest]
        suf_pending_append[of r ?ks rest] by auto
    show ?thesis
    proof (cases "key (item n) = None")
      case True
      from "1.IH"[OF pop refl n _ inv2] True obtain res it' where
        ih: "trieiter_suffixes_next r ?it2 = Some (res, it')"
        "iter_config it' = iter_config ?it2" "suf_inv r q (states it')"
        "(case res of
            None \<Rightarrow> suf_pending r (states ?it2) = {}
          | Some x \<Rightarrow> x \<notin> suf_pending r (states it') \<and>
              suf_pending r (states ?it2) = insert x (suf_pending r (states it')))"
        by auto
      have "trieiter_suffixes_next r it = Some (res, it')"
        using ih(1) pop n True by (simp add: trieiter_suffixes_next.simps[of r it])
      with ih cf2 pend True show ?thesis by (cases res) simp_all
    next
      case False
      let ?x = "triesearchresult_new (Some (s_query s)) (Some (s_node s)) 0"
      have "trieiter_suffixes_next r it = Some (Some ?x, ?it2)"
        using pop n False by (simp add: trieiter_suffixes_next.simps[of r it])
      moreover have "?x \<notin> suf_pending r (states ?it2)"
        unfolding st2 by (rule suf_pending_fresh[OF inv])
      ultimately show ?thesis using cf2 inv2 pend False by simp
    qed
  qed
qed


lemma trieiter_next_clean:
  "trie_state_id it = state_id r \<Longrightarrow> \<not> is_dirty it \<Longrightarrow>
   trieiter_next r it =
     (case next_func it of
        NEXT_suffixes \<Rightarrow> map_option (\<lambda>(res, it'). (res, r, it')) (trieiter_suffixes_next r it)
      | NEXT_neighbors \<Rightarrow> map_option (\<lambda>(res, it'). (res, r, it')) (trieiter_neighbors_next r it)
      | NEXT_hammingpairs \<Rightarrow> trieiter_hammingpairs_next r it)"
  by (simp add: trieiter_next_def)

definition suf_iter_inv :: "TrieRoot \<Rightarrow> node_ptr \<Rightarrow> TrieRoot \<Rightarrow> TrieIter \<Rightarrow> bool" where
  "suf_iter_inv r0 q r it =
     (r = r0 \<and> next_func it = NEXT_suffixes \<and> trie_state_id it = state_id r0 \<and>
      \<not> is_dirty it \<and> errcode it = E_SUCCESS \<and> suf_inv r0 q (states it))"

lemma suffixes_exhaust:
  assumes "suf_iter_inv r q r it"
  shows "\<exists>rs it'. trieiter_exhaust r it = Some (rs, r, it') \<and> distinct rs \<and>
     set rs = suf_pending r (states it) \<and> errcode it' = E_SUCCESS"
proof -
  have step: "\<And>r1 it1. suf_iter_inv r q r1 it1 \<Longrightarrow>
      \<exists>res r' it'. trieiter_next r1 it1 = Some (res, r', it') \<and>
        (case res of
           None \<Rightarrow> suf_pending r1 (states it1) = {} \<and> (r' = r \<and> errcode it' = E_SUCCESS)
         | Some x \<Rightarrow> suf_iter_inv r q r' it' \<and> x \<notin> suf_pending r' (states it') \<and>
             suf_pending r1 (states it1) = insert x (suf_pending r' (states it')))"
  proof -
    fix r1 it1 assume a: "suf_iter_inv r q r1 it1"
    then have r1: "r1 = r" and nf: "next_func it1 = NEXT_suffixes"
      and sy: "trie_state_id it1 = state_id r1" and nd: "\<not> is_dirty it1"
      and ec: "errcode it1 = E_SUCCESS" and si: "suf_inv r1 q (states it1)"
      by (simp_all add: suf_iter_inv_def)
    from suffixes_next_step[OF si] obtain res it' where
      nx: "trieiter_suffixes_next r1 it1 = Some (res, it')" and
      cf: "iter_config it' = iter_config it1" and si': "suf_inv r1 q (states it')" and
      c: "(case res of
            None \<Rightarrow> suf_pending r1 (states it1) = {}
          | Some x \<Rightarrow> x \<notin> suf_pending r1 (states it') \<and>
              suf_pending r1 (states it1) = insert x (suf_pending r1 (states it')))"
      by blast
    have tn: "trieiter_next r1 it1 = Some (res, r1, it')"
      using nx nf by (simp add: trieiter_next_clean[OF sy nd])
    from cf nf sy nd ec have "next_func it' = NEXT_suffixes" "trie_state_id it' = state_id r1"
      "\<not> is_dirty it'" "errcode it' = E_SUCCESS"
      by (simp_all add: iter_config_def)
    with si' r1 have "suf_iter_inv r q r1 it'" by (simp add: suf_iter_inv_def)
    with tn c r1 \<open>errcode it' = E_SUCCESS\<close>
    show "\<exists>res r' it'. trieiter_next r1 it1 = Some (res, r', it') \<and>
        (case res of
           None \<Rightarrow> suf_pending r1 (states it1) = {} \<and> (r' = r \<and> errcode it' = E_SUCCESS)
         | Some x \<Rightarrow> suf_iter_inv r q r' it' \<and> x \<notin> suf_pending r' (states it') \<and>
             suf_pending r1 (states it1) = insert x (suf_pending r' (states it')))"
      by (cases res) auto
  qed
  from exhaust_collects[where Inv = "suf_iter_inv r q" and P = "\<lambda>r it. suf_pending r (states it)"
      and Q = "\<lambda>r' it'. r' = r \<and> errcode it' = E_SUCCESS", OF step assms]
  show ?thesis by auto
qed

text \<open>
  Claim C3. On a store that satisfies the invariant, \<^verbatim>\<open>trieiter_suffixes\<close> on the empty key
  returns an iterator; calling \<^verbatim>\<open>trieiter_next\<close> until it returns NULL leaves the store as
  it was and the error code \<^verbatim>\<open>E_SUCCESS\<close>; the targets of the results carry pairwise
  different keys, these keys are exactly the stored keys, each target is the item
  \<^verbatim>\<open>trie_get_item\<close> returns for its key, and every result has \<^verbatim>\<open>hd == 0\<close> and the root as
  query.
\<close>

theorem suffixes_of_empty_key_yield_all_items:
  assumes "trie_invar r"
  shows "\<exists>it rs it'.
     trieiter_suffixes (Some r) (Some []) addr = (Some it, Some r) \<and>
     trieiter_exhaust r it = Some (rs, r, it') \<and> trieiter_errcode it' = E_SUCCESS \<and>
     distinct (map (\<lambda>res. read_key r (r_target res)) rs) \<and>
     set (map (\<lambda>res. read_key r (r_target res)) rs) = Some ` stored_keys r \<and>
     (\<forall>res\<in>set rs. r_hd res = 0 \<and> r_query res = Some [] \<and>
        (\<exists>k. read_key r (r_target res) = Some k \<and>
             read_item r (r_target res) = trie_get_item (Some r) k))"
proof -
  from assms have inv: "node_invar [] (root_node r)" by (simp add: trie_invar_def)
  let ?s0 = "\<lparr>s_node = [], s_query = [], s_hd = 0, s_depth = 0\<rparr>"
  let ?it = "\<lparr>self = addr, states = [?s0], capacity = 1, maxhd = 0, target_depth = 0,
      len_query = 0, is_dirty = False, trie_state_id = state_id r, errcode = E_SUCCESS,
      stack = [], next_func = NEXT_suffixes\<rparr>"
  have cr: "trieiter_suffixes (Some r) (Some []) addr = (Some ?it, Some r)"
    by (simp add: trieiter_suffixes_def trie_get_node_def trieiter_new_def
        trieiter_push_state_def)
  have "suf_iter_inv r [] r ?it"
    by (simp add: suf_iter_inv_def suf_inv_def incomparable_def)
  from suffixes_exhaust[OF this] obtain rs it' where
    ex: "trieiter_exhaust r ?it = Some (rs, r, it')" and d: "distinct rs"
    and rs: "set rs = suf_pending r [?s0]" and ec: "errcode it' = E_SUCCESS"
    by auto
  let ?f = "\<lambda>res. read_key r (r_target res)"
  have P: "set rs = {triesearchresult_new (Some []) (Some p) 0 | p.
      \<exists>m. node_at (root_node r) p = Some m \<and> key (item m) \<noteq> None}"
    unfolding rs suf_pending_def by auto
  have f: "\<And>p m. node_at (root_node r) p = Some m \<Longrightarrow> key (item m) \<noteq> None \<Longrightarrow>
      ?f (triesearchresult_new (Some []) (Some p) 0) = Some (path_key (root_node r) p)"
    using read_item_ptr(2)[OF inv] by (simp add: triesearchresult_new_def)
  have inj: "inj_on ?f (set rs)"
  proof (rule inj_onI)
    fix x y assume x: "x \<in> set rs" and y: "y \<in> set rs" and e: "?f x = ?f y"
    from x P obtain p m where p: "x = triesearchresult_new (Some []) (Some p) 0"
      "node_at (root_node r) p = Some m" "key (item m) \<noteq> None" by auto
    from y P obtain p' m' where p': "y = triesearchresult_new (Some []) (Some p') 0"
      "node_at (root_node r) p' = Some m'" "key (item m') \<noteq> None" by auto
    from e f[OF p(2,3)] f[OF p'(2,3)] p(1) p'(1)
    have "path_key (root_node r) p = path_key (root_node r) p'" by simp
    from path_key_inj[OF inv p(2) p'(2) this] p(1) p'(1) show "x = y" by simp
  qed
  have c1: "distinct (map ?f rs)" using d inj by (simp add: distinct_map)
  have c2: "set (map ?f rs) = Some ` stored_keys r"
  proof (rule set_eqI)
    fix y
    show "y \<in> set (map ?f rs) \<longleftrightarrow> y \<in> Some ` stored_keys r"
    proof
      assume "y \<in> set (map ?f rs)"
      then obtain x where x: "x \<in> set rs" "y = ?f x" by auto
      from x(1) P obtain p m where p: "x = triesearchresult_new (Some []) (Some p) 0"
        "node_at (root_node r) p = Some m" "key (item m) \<noteq> None" by auto
      from f[OF p(2,3)] x(2) p(1) have "y = Some (path_key (root_node r) p)" by simp
      moreover have "path_key (root_node r) p \<in> stored_keys r"
        unfolding stored_keys_def using trie_has_key_iff_ptr[OF inv] p(2,3) by blast
      ultimately show "y \<in> Some ` stored_keys r" by simp
    next
      assume "y \<in> Some ` stored_keys r"
      then obtain k where k: "y = Some k" "trie_has_key (Some r) k"
        by (auto simp: stored_keys_def)
      from k(2) trie_has_key_iff_ptr[OF inv] obtain p m where
        p: "node_at (root_node r) p = Some m" "key (item m) \<noteq> None"
        "path_key (root_node r) p = k" by blast
      from p(1,2) P have "triesearchresult_new (Some []) (Some p) 0 \<in> set rs" by blast
      moreover from f[OF p(1,2)] p(3) k(1)
      have "?f (triesearchresult_new (Some []) (Some p) 0) = y" by simp
      ultimately show "y \<in> set (map ?f rs)" by force
    qed
  qed
  have c3: "\<forall>res\<in>set rs. r_hd res = 0 \<and> r_query res = Some [] \<and>
        (\<exists>k. read_key r (r_target res) = Some k \<and>
             read_item r (r_target res) = trie_get_item (Some r) k)"
  proof
    fix x assume "x \<in> set rs"
    with P obtain p m where p: "x = triesearchresult_new (Some []) (Some p) 0"
      "node_at (root_node r) p = Some m" "key (item m) \<noteq> None" by auto
    from read_item_ptr[OF inv p(2,3)] p(1)
    show "r_hd x = 0 \<and> r_query x = Some [] \<and>
        (\<exists>k. read_key r (r_target x) = Some k \<and>
             read_item r (r_target x) = trie_get_item (Some r) k)"
      by (simp add: triesearchresult_new_def)
  qed
  from cr ex ec c1 c2 c3 show ?thesis
    by (auto simp: trieiter_errcode_def)
qed

theorem suffixes_of_empty_key_yield_all_items_witness:
  "trie_invar store_a_b \<and>
   (\<exists>it rs it'.
     trieiter_suffixes (Some store_a_b) (Some []) 3 = (Some it, Some store_a_b) \<and>
     trieiter_exhaust store_a_b it = Some (rs, store_a_b, it') \<and>
     trieiter_errcode it' = E_SUCCESS \<and>
     distinct (map (\<lambda>res. read_key store_a_b (r_target res)) rs) \<and>
     set (map (\<lambda>res. read_key store_a_b (r_target res)) rs) = Some ` stored_keys store_a_b)"
proof -
  have h: "trie_invar store_a_b"
    unfolding store_a_b_def by (rule trie_invar_apply_ops[OF trie_invar_new])
  from suffixes_of_empty_key_yield_all_items[OF h, of 3] h show ?thesis by blast
qed

section \<open>Traversals bounded by a Hamming distance\<close>

text \<open>
  The Hamming distance of two byte strings of equal length: the number of positions at
  which they differ.
\<close>

definition hamming :: "TRIECHAR list \<Rightarrow> TRIECHAR list \<Rightarrow> nat" where
  "hamming a b = length (filter (\<lambda>(x, y). x \<noteq> y) (zip a b))"

lemma hamming_Nil [simp]: "hamming [] b = 0" "hamming a [] = 0"
  by (simp_all add: hamming_def)

lemma hamming_Cons [simp]:
  "hamming (x # a) (y # b) = (if x \<noteq> y then 1 else 0) + hamming a b"
  by (simp add: hamming_def)

lemma hamming_commute: "hamming a b = hamming b a"
  by (induction a b rule: list_induct2') simp_all

lemma hamming_snoc:
  "length a < length b \<Longrightarrow>
   hamming (a @ [c]) b = hamming a b + (if c \<noteq> b ! length a then 1 else 0)"
proof (induction a b rule: list_induct2')
  case (2 x xs)
  then show ?case by simp
next
  case (3 y ys)
  then show ?case by simp
next
  case (4 x xs y ys)
  then show ?case by simp
qed simp

lemma hamming_append_mono: "hamming a b \<le> hamming (a @ c) b"
  by (induction a b rule: list_induct2') simp_all

lemma hamming_eq_0_iff: "length a = length b \<Longrightarrow> hamming a b = 0 \<longleftrightarrow> a = b"
  by (induction a b rule: list_induct2) auto

text \<open>The test \<^verbatim>\<open>(child->flags & TRIE_EXPLORED) == TRIE_EXPLORED\<close>.\<close>

definition explored :: "TrieNode \<Rightarrow> bool" where
  "explored c = (flags c AND TRIE_EXPLORED = TRIE_EXPLORED)"

text \<open>
  The states the \<^verbatim>\<open>for\<close> loop over the children pushes, in loop order, from the child
  with index \<open>i\<close> on: a child is skipped when \<open>E\<close> holds for it, pushed at the same
  distance when its byte is the query's byte \<open>b\<close>, and at one more when the bound \<open>mh\<close>
  allows it.
\<close>

definition pushed ::
  "(TrieNode \<Rightarrow> bool) \<Rightarrow> TrieIterState \<Rightarrow> TRIECHAR \<Rightarrow> int \<Rightarrow> nat \<Rightarrow> TrieNode list
     \<Rightarrow> TrieIterState list" where
  "pushed E st b mh i cs =
     map (\<lambda>j. child_state st (if ch (cs ! j) = b then s_hd st else s_hd st + 1) j)
       (filter (\<lambda>j. \<not> E (cs ! j) \<and> (ch (cs ! j) = b \<or> s_hd st < mh)) [i..<length cs])"

lemma pushed_all [simp]: "length cs \<le> i \<Longrightarrow> pushed E st b mh i cs = []"
  by (simp add: pushed_def)

lemma pushed_step:
  "i < length cs \<Longrightarrow>
   pushed E st b mh i cs =
     (if \<not> E (cs ! i) \<and> (ch (cs ! i) = b \<or> s_hd st < mh)
      then [child_state st (if ch (cs ! i) = b then s_hd st else s_hd st + 1) i] else []) @
     pushed E st b mh (Suc i) cs"
  by (simp add: pushed_def upt_conv_Cons)

lemma maxhd_push [simp]: "maxhd (trieiter_push_state it nd q h d) = maxhd it"
  by (simp add: trieiter_push_state_def)


lemma neighbors_push_children_Nil:
  "neighbors_push_children r it st [] i = Some it"
  by simp

lemma set_pushed:
  "set (pushed E st b mh 0 cs) =
     {child_state st (if ch (cs ! j) = b then s_hd st else s_hd st + 1) j | j.
        j < length cs \<and> \<not> E (cs ! j) \<and> (ch (cs ! j) = b \<or> s_hd st < mh)}"
proof -
  have "set (filter (\<lambda>j. \<not> E (cs ! j) \<and> (ch (cs ! j) = b \<or> s_hd st < mh)) [0..<length cs]) =
      {j. j < length cs \<and> \<not> E (cs ! j) \<and> (ch (cs ! j) = b \<or> s_hd st < mh)}"
    by auto
  then show ?thesis unfolding pushed_def set_map by blast
qed

lemma distinct_pushed: "distinct (map s_node (pushed E st b mh i cs))"
  by (simp add: pushed_def distinct_map inj_on_def comp_def)


text \<open>
  A state of a bounded traversal for the query node \<open>q\<close> with key \<open>qk\<close>: its node exists at
  depth \<^verbatim>\<open>depth\<close>, at most \<open>L\<close>, and \<^verbatim>\<open>hd\<close> is the distance between the bytes down to the
  node and the first bytes of the key, within the bound.
\<close>

definition state_ok ::
  "TrieNode \<Rightarrow> node_ptr \<Rightarrow> TRIECHAR list \<Rightarrow> nat \<Rightarrow> int \<Rightarrow> TrieIterState \<Rightarrow> bool" where
  "state_ok R q qk L mh s =
     (s_query s = q \<and> node_at R (s_node s) \<noteq> None \<and>
      s_depth s = int (length (s_node s)) \<and> length (s_node s) \<le> L \<and>
      s_hd s = int (hamming (path_key R (s_node s)) qk) \<and> s_hd s \<le> mh)"

definition trav_inv ::
  "TrieNode \<Rightarrow> node_ptr \<Rightarrow> TRIECHAR list \<Rightarrow> nat \<Rightarrow> int \<Rightarrow> TrieIterState list \<Rightarrow> bool" where
  "trav_inv R q qk L mh sts =
     (incomparable (map s_node sts) \<and> (\<forall>s\<in>set sts. state_ok R q qk L mh s))"

lemma prefix_same_length: "prefix xs ys \<Longrightarrow> length xs = length ys \<Longrightarrow> xs = ys"
  by (auto simp: prefix_def)

text \<open>
  The result for a target node, and the results pending below the states of a traversal
  for the targets that satisfy \<open>T\<close>.
\<close>

definition hd_result :: "TrieNode \<Rightarrow> node_ptr \<Rightarrow> TRIECHAR list \<Rightarrow> node_ptr \<Rightarrow> TrieSearchResult" where
  "hd_result R q qk t =
     triesearchresult_new (Some q) (Some t) (int (hamming (path_key R t) qk))"

definition pending ::
  "(node_ptr \<Rightarrow> bool) \<Rightarrow> TrieNode \<Rightarrow> node_ptr \<Rightarrow> TRIECHAR list \<Rightarrow> TrieIterState list
     \<Rightarrow> TrieSearchResult set" where
  "pending T R q qk sts = hd_result R q qk ` {t. T t \<and> (\<exists>s\<in>set sts. prefix (s_node s) t)}"

lemma pending_Nil [simp]: "pending T R q qk [] = {}"
  by (simp add: pending_def)

lemma pending_append:
  "pending T R q qk (xs @ ys) = pending T R q qk xs \<union> pending T R q qk ys"
  by (auto simp: pending_def)

lemma pending_Cons:
  "pending T R q qk (x # ys) = pending T R q qk [x] \<union> pending T R q qk ys"
  using pending_append[of T R q qk "[x]" ys] by simp

lemma pending_rev [simp]: "pending T R q qk (rev xs) = pending T R q qk xs"
  by (simp add: pending_def)

lemma hd_result_inj: "hd_result R q qk t = hd_result R q qk t' \<Longrightarrow> t = t'"
  by (simp add: hd_result_def triesearchresult_new_def)

lemma pending_fresh:
  assumes "incomparable (s_node s # map s_node rest)"
  shows "hd_result R q qk (s_node s) \<notin> pending T R q qk rest"
proof
  assume "hd_result R q qk (s_node s) \<in> pending T R q qk rest"
  then obtain t s' where "hd_result R q qk (s_node s) = hd_result R q qk t"
    and s': "s' \<in> set rest" "prefix (s_node s') t"
    by (auto simp: pending_def)
  from hd_result_inj[OF this(1)] s'(2) have p: "prefix (s_node s') (s_node s)" by simp
  from assms s'(1) have "s_node s' \<in> set (s_node s # map s_node rest)"
    "s_node s \<in> set (s_node s # map s_node rest)" by simp_all
  with p assms have "s_node s' = s_node s" unfolding incomparable_def by blast
  with assms s'(1) show False by (auto simp: incomparable_def)
qed

lemma pending_leaf:
  assumes "\<forall>t. T t \<longrightarrow> length t = L" "length (s_node s) = L"
  shows "pending T R q qk [s] = (if T (s_node s) then {hd_result R q qk (s_node s)} else {})"
proof -
  have "{t. T t \<and> (\<exists>x\<in>set [s]. prefix (s_node x) t)} = (if T (s_node s) then {s_node s} else {})"
  proof (rule set_eqI)
    fix t
    have "T t \<and> prefix (s_node s) t \<longleftrightarrow> T t \<and> t = s_node s"
      using assms by (metis prefix_same_length prefix_order.order_refl)
    then show "t \<in> {t. T t \<and> (\<exists>x\<in>set [s]. prefix (s_node x) t)} \<longleftrightarrow>
        t \<in> (if T (s_node s) then {s_node s} else {})" by auto
  qed
  then show ?thesis by (simp add: pending_def)
qed

lemma pending_expand:
  assumes T: "\<forall>t. T t \<longrightarrow> length t = L \<and> node_at R t \<noteq> None"
    and len: "length (s_node s) < L"
    and n: "node_at R (s_node s) = Some n"
    and ks: "\<forall>k\<in>set ks. \<exists>j. s_node k = s_node s @ [j]"
    and cover: "\<forall>j<length (child n). (\<exists>k\<in>set ks. s_node k = s_node s @ [j]) \<or>
        (\<forall>t. T t \<longrightarrow> \<not> prefix (s_node s @ [j]) t)"
  shows "pending T R q qk [s] = pending T R q qk ks"
proof -
  have "{t. T t \<and> (\<exists>x\<in>set [s]. prefix (s_node x) t)} =
      {t. T t \<and> (\<exists>x\<in>set ks. prefix (s_node x) t)}"
  proof (rule set_eqI)
    fix t
    show "t \<in> {t. T t \<and> (\<exists>x\<in>set [s]. prefix (s_node x) t)} \<longleftrightarrow>
        t \<in> {t. T t \<and> (\<exists>x\<in>set ks. prefix (s_node x) t)}"
    proof
      assume "t \<in> {t. T t \<and> (\<exists>x\<in>set [s]. prefix (s_node x) t)}"
      then have t: "T t" "prefix (s_node s) t" by simp_all
      from t(1) T have lt: "length t = L" and vt: "node_at R t \<noteq> None" by auto
      from t(2) obtain d where d: "t = s_node s @ d" by (auto simp: prefix_def)
      with lt len obtain j d' where d': "d = j # d'" by (cases d) auto
      from vt d d' n have j: "j < length (child n)"
        by (auto simp: node_at_append split: if_splits)
      have pj: "prefix (s_node s @ [j]) t" using d d' by (simp add: prefix_def)
      from cover j t(1) pj obtain k where "k \<in> set ks" "s_node k = s_node s @ [j]" by blast
      with pj t(1) show "t \<in> {t. T t \<and> (\<exists>x\<in>set ks. prefix (s_node x) t)}"
        by (auto intro!: bexI[of _ k])
    next
      assume "t \<in> {t. T t \<and> (\<exists>x\<in>set ks. prefix (s_node x) t)}"
      then obtain k where t: "T t" and k: "k \<in> set ks" "prefix (s_node k) t" by auto
      from ks k(1) obtain j where "s_node k = s_node s @ [j]" by auto
      with k(2) have "prefix (s_node s) t" by (metis append_prefixD)
      with t show "t \<in> {t. T t \<and> (\<exists>x\<in>set [s]. prefix (s_node x) t)}" by simp
    qed
  qed
  then show ?thesis by (simp add: pending_def)
qed

lemma hamming_below:
  assumes "node_at R p = Some m" "prefix p t"
  shows "hamming (path_key R p) qk \<le> hamming (path_key R t) qk"
proof -
  from assms(2) obtain d where "t = p @ d" by (auto simp: prefix_def)
  with path_key_append[OF assms(1), of d] show ?thesis
    by (simp add: hamming_append_mono)
qed

lemma path_key_snoc:
  "node_at R p = Some n \<Longrightarrow> j < length (child n) \<Longrightarrow>
   path_key R (p @ [j]) = path_key R p @ [ch (child n ! j)]"
  by (simp add: path_key_append)

lemma trav_inv_pushed:
  assumes inv: "trav_inv R q qk L mh (s # rest)"
    and n: "node_at R (s_node s) = Some n"
    and len: "length (s_node s) < L" "L = length qk"
    and cs: "map ch cs = map ch (child n)"
  shows "trav_inv R q qk L mh (rev (pushed E s (qk ! length (s_node s)) mh 0 cs) @ rest)"
proof -
  let ?b = "qk ! length (s_node s)"
  let ?ks = "pushed E s ?b mh 0 cs"
  from cs have lcs: "length cs = length (child n)" by (rule map_eq_imp_length_eq)
  have chcs: "\<And>j. j < length cs \<Longrightarrow> ch (cs ! j) = ch (child n ! j)"
    using cs lcs by (metis nth_map)
  from inv have inc: "incomparable (s_node s # map s_node rest)"
    and sok: "state_ok R q qk L mh s"
    and rest: "\<forall>x\<in>set rest. state_ok R q qk L mh x"
    by (simp_all add: trav_inv_def)
  from sok have s: "s_query s = q" "s_depth s = int (length (s_node s))"
    "s_hd s = int (hamming (path_key R (s_node s)) qk)" "s_hd s \<le> mh"
    by (simp_all add: state_ok_def)
  have kform: "\<forall>k\<in>set (map s_node (rev ?ks)). \<exists>j. k = s_node s @ [j]"
    by (auto simp: set_pushed)
  have "incomparable (map s_node (rev ?ks) @ map s_node rest)"
    by (rule incomparable_children[OF inc _ kform])
       (simp add: distinct_pushed flip: rev_map)
  moreover have "\<forall>x\<in>set (rev ?ks). state_ok R q qk L mh x"
  proof
    fix x assume "x \<in> set (rev ?ks)"
    then obtain j where j: "j < length cs"
      "x = child_state s (if ch (cs ! j) = ?b then s_hd s else s_hd s + 1) j"
      "ch (cs ! j) = ?b \<or> s_hd s < mh"
      by (auto simp: set_pushed)
    from j(1) lcs have jn: "j < length (child n)" by simp
    have lp: "length (path_key R (s_node s)) < length qk"
      using node_at_length_path_key[OF n] len by simp
    have h: "hamming (path_key R (s_node s @ [j])) qk =
        hamming (path_key R (s_node s)) qk + (if ch (cs ! j) \<noteq> ?b then 1 else 0)"
      using hamming_snoc[OF lp] node_at_length_path_key[OF n]
      by (simp add: path_key_snoc[OF n jn] chcs[OF j(1)])
    show "state_ok R q qk L mh x"
      unfolding state_ok_def using j jn s n len(1) h by (auto simp: node_at_append)
  qed
  ultimately show ?thesis using rest by (auto simp: trav_inv_def)
qed


section \<open>The neighbor iterator\<close>


lemma query_byte_in_key:
  "node_at (root_node r) q = Some qn \<Longrightarrow> key (item qn) = Some qk \<Longrightarrow> d < length qk \<Longrightarrow>
   query_byte r q (int d) = Some (qk ! d)"
  by (simp add: query_byte_def)

lemma pending_pushed:
  assumes T: "\<forall>t. T t \<longrightarrow> length t = L \<and> node_at R t \<noteq> None"
    and Tmh: "\<forall>t. T t \<longrightarrow> int (hamming (path_key R t) qk) \<le> mh"
    and TE: "\<forall>j<length cs. E (cs ! j) \<longrightarrow> (\<forall>t. T t \<longrightarrow> \<not> prefix (s_node s @ [j]) t)"
    and sok: "state_ok R q qk L mh s"
    and n: "node_at R (s_node s) = Some n"
    and len: "length (s_node s) < L" "L = length qk"
    and cs: "map ch cs = map ch (child n)"
  shows "pending T R q qk [s] =
     pending T R q qk (pushed E s (qk ! length (s_node s)) mh 0 cs)"
proof (rule pending_expand[OF T len(1) n])
  let ?b = "qk ! length (s_node s)"
  let ?ks = "pushed E s ?b mh 0 cs"
  from cs have lcs: "length cs = length (child n)" by (rule map_eq_imp_length_eq)
  have chcs: "\<And>j. j < length cs \<Longrightarrow> ch (cs ! j) = ch (child n ! j)"
    using cs lcs by (metis nth_map)
  show "\<forall>k\<in>set ?ks. \<exists>j. s_node k = s_node s @ [j]" by (auto simp: set_pushed)
  from sok have hd: "s_hd s = int (hamming (path_key R (s_node s)) qk)"
    by (simp add: state_ok_def)
  show "\<forall>j<length (child n). (\<exists>k\<in>set ?ks. s_node k = s_node s @ [j]) \<or>
        (\<forall>t. T t \<longrightarrow> \<not> prefix (s_node s @ [j]) t)"
  proof (intro allI impI)
    fix j assume jn: "j < length (child n)"
    with lcs have j: "j < length cs" by simp
    show "(\<exists>k\<in>set ?ks. s_node k = s_node s @ [j]) \<or>
        (\<forall>t. T t \<longrightarrow> \<not> prefix (s_node s @ [j]) t)"
    proof (cases "E (cs ! j)")
      case True
      with TE j show ?thesis by blast
    next
      case nE: False
      show ?thesis
      proof (cases "ch (cs ! j) = ?b \<or> s_hd s < mh")
        case True
        with nE j have "child_state s (if ch (cs ! j) = ?b then s_hd s else s_hd s + 1) j
            \<in> set ?ks" unfolding set_pushed by blast
        then show ?thesis by (metis child_state_sel(1))
      next
        case False
        have lp: "length (path_key R (s_node s)) < length qk"
          using node_at_length_path_key[OF n] len by simp
        have h: "hamming (path_key R (s_node s @ [j])) qk =
            hamming (path_key R (s_node s)) qk + 1"
          using hamming_snoc[OF lp] node_at_length_path_key[OF n] False
          by (simp add: path_key_snoc[OF n jn] chcs[OF j])
        have v: "node_at R (s_node s @ [j]) = Some (child n ! j)"
          using n jn by (simp add: node_at_append)
        have "\<forall>t. T t \<longrightarrow> \<not> prefix (s_node s @ [j]) t"
        proof (intro allI impI notI)
          fix t assume t: "T t" "prefix (s_node s @ [j]) t"
          from hamming_below[OF v t(2), of qk] h
          have "hamming (path_key R (s_node s)) qk + 1 \<le> hamming (path_key R t) qk" by simp
          moreover from Tmh t(1) have "int (hamming (path_key R t) qk) \<le> mh" by simp
          ultimately show False using False hd by simp
        qed
        then show ?thesis by simp
      qed
    qed
  qed
qed









section \<open>Node flags and the shape of the trie\<close>

text \<open>
  \<^verbatim>\<open>trie_reset\<close> and the \<^verbatim>\<open>TRIE_EXPLORED\<close> marks change flags only: two tries with the
  same \<^verbatim>\<open>trie_reset\<close> have the same nodes, items and bytes at every pointer.
\<close>

lemma node_at_reset: "node_at (trie_reset n) p = map_option trie_reset (node_at n p)"
proof (induction p arbitrary: n)
  case Nil
  then show ?case by simp
next
  case (Cons i p)
  then show ?case by (cases n) simp
qed

lemma trie_reset_sel [simp]:
  "item (trie_reset n) = item n" "ch (trie_reset n) = ch n"
  "child (trie_reset n) = map trie_reset (child n)"
  by (cases n; simp)+

lemma trie_reset_set_explored [simp]: "trie_reset (set_explored n) = trie_reset n"
  by (cases n) (simp add: set_explored_def)

lemma trie_reset_upd: "trie_reset (node_upd set_explored p n) = trie_reset n"
proof (induction p arbitrary: n)
  case Nil
  then show ?case by simp
next
  case (Cons i p)
  show ?case
  proof (cases "i < length (child n)")
    case True
    have "map trie_reset ((child n)[i := node_upd set_explored p (child n ! i)]) =
        map trie_reset (child n)"
      using Cons.IH[of "child n ! i"] True by (simp add: map_update list_update_same_conv)
    then show ?thesis using True by (cases n) simp
  next
    case False
    then show ?thesis by simp
  qed
qed

lemma trie_reset_clear: "flags_clear n \<Longrightarrow> trie_reset n = n"
  by (induction n rule: trie_reset.induct) (simp add: map_idI)

lemma same_nodes_at:
  assumes "trie_reset R = trie_reset R0" "node_at R0 p = Some m0"
  shows "\<exists>m. node_at R p = Some m \<and> item m = item m0 \<and> ch m = ch m0 \<and>
     map ch (child m) = map ch (child m0)"
proof -
  from node_at_reset[of R p] node_at_reset[of R0 p] assms
  obtain m where m: "node_at R p = Some m" "trie_reset m = trie_reset m0"
    by (cases "node_at R p") auto
  from m(2) have "item (trie_reset m) = item (trie_reset m0)" "ch (trie_reset m) = ch (trie_reset m0)"
    "map ch (child (trie_reset m)) = map ch (child (trie_reset m0))" by simp_all
  then have "item m = item m0 \<and> ch m = ch m0 \<and> map ch (child m) = map ch (child m0)"
    by (simp add: comp_def)
  with m(1) show ?thesis by blast
qed

text \<open>The node a pointer designates carries \<^verbatim>\<open>TRIE_EXPLORED\<close>.\<close>

definition expl :: "TrieNode \<Rightarrow> node_ptr \<Rightarrow> bool" where
  "expl R p = (case node_at R p of None \<Rightarrow> False | Some m \<Rightarrow> explored m)"

lemma explored_set_explored [simp]: "explored (set_explored m)"
proof -
  have "(flags m OR 1) AND 1 = (1::int)"
    by (simp add: bit_eq_iff bit_and_iff bit_or_iff bit_1_iff) auto
  then show ?thesis by (simp add: explored_def set_explored_def TRIE_EXPLORED_def)
qed

lemma flags_node_upd_Cons: "flags (node_upd f (i # p) m) = flags m"
  by simp

lemma explored_node_upd:
  "explored (node_upd set_explored d m) \<longleftrightarrow> explored m \<or> d = []"
  by (cases d) (simp_all add: explored_def[of "TrieNode _ _ _ _"] explored_def[of m])

lemma expl_upd:
  assumes "node_at R p \<noteq> None"
  shows "expl (node_upd set_explored p R) t \<longleftrightarrow> expl R t \<or> t = p"
proof (cases "node_at R t")
  case None
  with assms show ?thesis by (auto simp: expl_def node_at_upd)
next
  case (Some m)
  have e: "take (length t) p = t \<and> drop (length t) p = [] \<longleftrightarrow> t = p"
  proof
    assume "take (length t) p = t \<and> drop (length t) p = []"
    then have "take (length t) p @ drop (length t) p = t" by simp
    then show "t = p" by simp
  next
    assume "t = p"
    then show "take (length t) p = t \<and> drop (length t) p = []" by simp
  qed
  show ?thesis
    using Some e by (auto simp: expl_def node_at_upd explored_node_upd)
qed

lemma length_filter_eq_iff: "length (filter P xs) = length xs \<longleftrightarrow> (\<forall>x\<in>set xs. P x)"
proof (induction xs)
  case Nil
  then show ?case by simp
next
  case (Cons x xs)
  have le: "length (filter P xs) \<le> length xs" by (rule length_filter_le)
  have "length (filter P xs) \<noteq> Suc (length xs)"
  proof
    assume e: "length (filter P xs) = Suc (length xs)"
    from le show False unfolding e by simp
  qed
  with Cons show ?case by auto
qed

lemma hammingpairs_push_children_states:
  assumes "query_byte r (s_query st) (s_depth st) = Some b"
  shows "cs = drop i cs0 \<Longrightarrow>
     \<exists>it'. hammingpairs_push_children r it st cs i nc ne =
         Some (it', nc + int (length cs), ne + int (length (filter explored cs))) \<and>
       states it' = rev (pushed explored st b (maxhd it) i cs0) @ states it \<and>
       iter_config it' = iter_config it"
proof (induction cs arbitrary: it i nc ne)
  case Nil
  then show ?case by simp
next
  case (Cons c cs)
  from drop_eq_ConsD[OF Cons.prems]
  have i: "i < length cs0" and c: "c = cs0 ! i" and cs: "cs = drop (Suc i) cs0" by simp_all
  show ?case
  proof (cases "explored c")
    case True
    from Cons.IH[OF cs, of it "nc + 1" "ne + 1"] obtain it' where
      it': "hammingpairs_push_children r it st cs (Suc i) (nc + 1) (ne + 1) =
         Some (it', nc + 1 + int (length cs), ne + 1 + int (length (filter explored cs)))"
      "states it' = rev (pushed explored st b (maxhd it) (Suc i) cs0) @ states it"
      "iter_config it' = iter_config it"
      by blast
    have "hammingpairs_push_children r it st (c # cs) i nc ne =
         Some (it', nc + int (length (c # cs)), ne + int (length (filter explored (c # cs))))"
      using it'(1) True by (simp add: explored_def)
    moreover have "states it' = rev (pushed explored st b (maxhd it) i cs0) @ states it"
      using it'(2) c True by (simp add: pushed_step[OF i])
    ultimately show ?thesis using it'(3) by blast
  next
    case False
    let ?it1 = "(if ch c = b
             then trieiter_push_state it (s_node st @ [i]) (s_query st) (s_hd st) (s_depth st + 1)
             else if s_hd st < maxhd it
             then trieiter_push_state it (s_node st @ [i]) (s_query st) (s_hd st + 1)
                    (s_depth st + 1)
             else it)"
    have m: "maxhd ?it1 = maxhd it" by simp
    from Cons.IH[OF cs, of ?it1 "nc + 1" ne] obtain it' where
      it': "hammingpairs_push_children r ?it1 st cs (Suc i) (nc + 1) ne =
         Some (it', nc + 1 + int (length cs), ne + int (length (filter explored cs)))"
      "states it' = rev (pushed explored st b (maxhd it) (Suc i) cs0) @ states ?it1"
      "iter_config it' = iter_config ?it1"
      unfolding m by blast
    have "hammingpairs_push_children r it st (c # cs) i nc ne =
         Some (it', nc + int (length (c # cs)), ne + int (length (filter explored (c # cs))))"
      using it'(1) assms False by (simp add: explored_def)
    moreover have "states it' = rev (pushed explored st b (maxhd it) i cs0) @ states it"
      using it'(2) c False by (simp add: pushed_step[OF i] child_state_def)
    moreover have "iter_config it' = iter_config it" using it'(3) by simp
    ultimately show ?thesis by blast
  qed
qed


section \<open>The pairs iterator\<close>

text \<open>
  The targets of \<^verbatim>\<open>trieiter_hammingpairs\<close>: the item-bearing nodes at depth \<open>L\<close>. While the
  query \<open>q\<close> with key \<open>qk\<close> is traversed, a target is a node that is still on the target
  stack, within the distance \<open>mh\<close> of the key. The results \<open>future\<close> of the queries still
  on the stack pair each with the targets below it on the stack.
\<close>

definition item_at_depth :: "TrieNode \<Rightarrow> nat \<Rightarrow> node_ptr \<Rightarrow> bool" where
  "item_at_depth R L t = (length t = L \<and> (\<exists>m. node_at R t = Some m \<and> key (item m) \<noteq> None))"

definition hp_target ::
  "TrieNode \<Rightarrow> nat \<Rightarrow> int \<Rightarrow> node_ptr list \<Rightarrow> TRIECHAR list \<Rightarrow> node_ptr \<Rightarrow> bool" where
  "hp_target R L mh stk qk t =
     (item_at_depth R L t \<and> t \<in> set stk \<and> int (hamming (path_key R t) qk) \<le> mh)"

fun future :: "TrieNode \<Rightarrow> nat \<Rightarrow> int \<Rightarrow> node_ptr list \<Rightarrow> TrieSearchResult set" where
  "future R L mh [] = {}"
| "future R L mh (q # rest) =
     hd_result R q (path_key R q) ` {t. hp_target R L mh rest (path_key R q) t} \<union>
     future R L mh rest"

definition hp_pending :: "TrieNode \<Rightarrow> nat \<Rightarrow> int \<Rightarrow> TrieIter \<Rightarrow> TrieSearchResult set" where
  "hp_pending R L mh it =
     (case states it of
        [] \<Rightarrow> {}
      | s # _ \<Rightarrow>
          pending (hp_target R L mh (stack it) (path_key R (s_query s))) R (s_query s)
            (path_key R (s_query s)) (states it)) \<union>
     future R L mh (stack it)"

text \<open>
  The marks during the iteration, relative to the trie \<open>R0\<close> the iterator was created on:
  below a marked node no target is left on the stack, and every target that has left the
  stack is marked. The states on the state array are not marked, and belong to one query
  that has left the stack.
\<close>

definition flags_inv :: "TrieNode \<Rightarrow> nat \<Rightarrow> TrieNode \<Rightarrow> node_ptr list \<Rightarrow> bool" where
  "flags_inv R0 L R stk =
     (trie_reset R = trie_reset R0 \<and> distinct stk \<and> (\<forall>t\<in>set stk. item_at_depth R0 L t) \<and>
      (\<forall>p t. expl R p \<and> prefix p t \<and> item_at_depth R0 L t \<longrightarrow> t \<notin> set stk) \<and>
      (\<forall>t. item_at_depth R0 L t \<and> t \<notin> set stk \<longrightarrow> expl R t))"

definition hp_inv :: "TrieNode \<Rightarrow> nat \<Rightarrow> int \<Rightarrow> TrieNode \<Rightarrow> TrieIter \<Rightarrow> bool" where
  "hp_inv R0 L mh R it =
     (maxhd it = mh \<and> target_depth it = int L \<and> flags_inv R0 L R (stack it) \<and>
      (\<forall>s\<in>set (states it). s_node s \<noteq> [] \<longrightarrow> \<not> expl R (s_node s)) \<and>
      (\<exists>q. q \<notin> set (stack it) \<and> (states it \<noteq> [] \<longrightarrow> item_at_depth R0 L q) \<and>
           trav_inv R0 q (path_key R0 q) L mh (states it)))"

text \<open>The fields of an iterator that no \<^verbatim>\<open>next\<close> function assigns.\<close>

definition iter_ident :: "TrieIter \<Rightarrow> nat \<times> bool \<times> int \<times> int \<times> TrieIterNextFunc" where
  "iter_ident it = (self it, is_dirty it, trie_state_id it, errcode it, next_func it)"



lemma iter_ident_config: "iter_config it' = iter_config it \<Longrightarrow> iter_ident it' = iter_ident it"
  by (simp add: iter_config_def iter_ident_def)

lemma same_nodes_valid:
  assumes "trie_reset R = trie_reset R0" "node_at R0 p \<noteq> None"
  shows "node_at R p \<noteq> None"
proof -
  from assms(2) obtain m0 where "node_at R0 p = Some m0" by auto
  from same_nodes_at[OF assms(1) this] show ?thesis by auto
qed

lemma flags_inv_pop_query:
  assumes "flags_inv R0 L R (q # rest)"
  shows "flags_inv R0 L (node_upd set_explored q R) rest"
proof -
  from assms have rs: "trie_reset R = trie_reset R0" and d: "distinct (q # rest)"
    and tg: "\<forall>t\<in>set (q # rest). item_at_depth R0 L t"
    and f1: "\<forall>p t. expl R p \<and> prefix p t \<and> item_at_depth R0 L t \<longrightarrow> t \<notin> set (q # rest)"
    and f3: "\<forall>t. item_at_depth R0 L t \<and> t \<notin> set (q # rest) \<longrightarrow> expl R t"
    unfolding flags_inv_def by blast+
  from tg have q: "item_at_depth R0 L q" by simp
  then have "node_at R0 q \<noteq> None" by (auto simp: item_at_depth_def)
  from same_nodes_valid[OF rs this] have v: "node_at R q \<noteq> None" .
  note eu = expl_upd[OF v]
  have "\<forall>p t. expl (node_upd set_explored q R) p \<and> prefix p t \<and> item_at_depth R0 L t
      \<longrightarrow> t \<notin> set rest"
  proof (intro allI impI)
    fix p t assume a: "expl (node_upd set_explored q R) p \<and> prefix p t \<and> item_at_depth R0 L t"
    show "t \<notin> set rest"
    proof (cases "p = q")
      case True
      from a q have "length t = length q" by (simp add: item_at_depth_def)
      with a True have "t = q" using prefix_same_length[of q t] by simp
      with d show ?thesis by simp
    next
      case False
      with a have "expl R p" by (simp add: eu)
      with a f1 have "t \<notin> set (q # rest)" by blast
      then show ?thesis by simp
    qed
  qed
  moreover have "\<forall>t. item_at_depth R0 L t \<and> t \<notin> set rest \<longrightarrow>
      expl (node_upd set_explored q R) t"
    using f3 by (auto simp: eu)
  moreover have "trie_reset (node_upd set_explored q R) = trie_reset R0"
    using rs by (simp add: trie_reset_upd)
  moreover have "distinct rest" using d by simp
  moreover have "\<forall>t\<in>set rest. item_at_depth R0 L t" using tg by simp
  ultimately show ?thesis unfolding flags_inv_def by blast
qed

lemma flags_inv_mark:
  assumes "flags_inv R0 L R stk" "node_at R0 p \<noteq> None"
    and below: "\<forall>t. prefix p t \<and> item_at_depth R0 L t \<longrightarrow> t \<notin> set stk"
  shows "flags_inv R0 L (node_upd set_explored p R) stk"
proof -
  from assms have rs: "trie_reset R = trie_reset R0" and d: "distinct stk"
    and tg: "\<forall>t\<in>set stk. item_at_depth R0 L t"
    and f1: "\<forall>p t. expl R p \<and> prefix p t \<and> item_at_depth R0 L t \<longrightarrow> t \<notin> set stk"
    and f3: "\<forall>t. item_at_depth R0 L t \<and> t \<notin> set stk \<longrightarrow> expl R t"
    unfolding flags_inv_def by blast+
  from same_nodes_valid[OF rs assms(2)] have v: "node_at R p \<noteq> None" .
  note eu = expl_upd[OF v]
  have "\<forall>p' t. expl (node_upd set_explored p R) p' \<and> prefix p' t \<and> item_at_depth R0 L t
      \<longrightarrow> t \<notin> set stk"
  proof (intro allI impI)
    fix p' t
    assume a: "expl (node_upd set_explored p R) p' \<and> prefix p' t \<and> item_at_depth R0 L t"
    show "t \<notin> set stk"
    proof (cases "p' = p")
      case True
      with a below show ?thesis by blast
    next
      case False
      with a have "expl R p'" by (simp add: eu)
      with a f1 show ?thesis by blast
    qed
  qed
  moreover have "\<forall>t. item_at_depth R0 L t \<and> t \<notin> set stk \<longrightarrow>
      expl (node_upd set_explored p R) t"
    using f3 by (auto simp: eu)
  moreover have "trie_reset (node_upd set_explored p R) = trie_reset R0"
    using rs by (simp add: trie_reset_upd)
  ultimately show ?thesis unfolding flags_inv_def using d tg by blast
qed

lemma future_query:
  "x \<in> future R L mh stk \<Longrightarrow> \<exists>q\<in>set stk. r_query x = Some q"
  by (induction stk) (auto simp: hd_result_def triesearchresult_new_def)

lemma hp_pending_eq:
  assumes "trav_inv R q qk L mh (states it)" "qk = path_key R q"
  shows "hp_pending R L mh it =
     pending (hp_target R L mh (stack it) qk) R q qk (states it) \<union> future R L mh (stack it)"
proof (cases "states it")
  case Nil
  then show ?thesis by (simp add: hp_pending_def)
next
  case (Cons s rest)
  with assms(1) have "s_query s = q" by (simp add: trav_inv_def state_ok_def)
  with Cons assms(2) show ?thesis by (simp add: hp_pending_def)
qed

lemma item_at_depth_key:
  assumes "node_invar [] R0" "item_at_depth R0 L q" "trie_reset R = trie_reset R0"
  shows "\<exists>qn. node_at R q = Some qn \<and> key (item qn) = Some (path_key R0 q) \<and>
     length (path_key R0 q) = L"
proof -
  from assms(2) obtain m0 where m0: "node_at R0 q = Some m0" "key (item m0) \<noteq> None"
    and l: "length q = L" by (auto simp: item_at_depth_def)
  from same_nodes_at[OF assms(3) m0(1)] obtain m where
    m: "node_at R q = Some m" "item m = item m0" by blast
  from node_invar_key_at[OF assms(1) m0] node_at_length_path_key[OF m0(1)] l m
  show ?thesis by simp
qed


lemma flags_invD:
  assumes "flags_inv R0 L R stk"
  shows "trie_reset R = trie_reset R0" "distinct stk"
    "\<And>t. t \<in> set stk \<Longrightarrow> item_at_depth R0 L t"
    "\<And>p t. expl R p \<Longrightarrow> prefix p t \<Longrightarrow> item_at_depth R0 L t \<Longrightarrow> t \<notin> set stk"
    "\<And>t. item_at_depth R0 L t \<Longrightarrow> t \<notin> set stk \<Longrightarrow> expl R t"
  using assms unfolding flags_inv_def by blast+

lemma hp_invI:
  "maxhd it = mh \<Longrightarrow> target_depth it = int L \<Longrightarrow> flags_inv R0 L R (stack it) \<Longrightarrow>
   (\<And>s. s \<in> set (states it) \<Longrightarrow> s_node s \<noteq> [] \<Longrightarrow> \<not> expl R (s_node s)) \<Longrightarrow>
   q \<notin> set (stack it) \<Longrightarrow> (states it \<noteq> [] \<Longrightarrow> item_at_depth R0 L q) \<Longrightarrow>
   trav_inv R0 q (path_key R0 q) L mh (states it) \<Longrightarrow> hp_inv R0 L mh R it"
  unfolding hp_inv_def by blast

lemma hammingpairs_next_step:
  "node_invar [] R0 \<Longrightarrow> 0 < L \<Longrightarrow> 0 \<le> mh \<Longrightarrow> hp_inv R0 L mh (root_node r) it \<Longrightarrow>
     \<exists>res r' it'. trieiter_hammingpairs_next r it = Some (res, r', it') \<and>
       iter_ident it' = iter_ident it \<and> hp_inv R0 L mh (root_node r') it' \<and>
       (case res of
          None \<Rightarrow> hp_pending R0 L mh it = {}
        | Some x \<Rightarrow> x \<notin> hp_pending R0 L mh it' \<and>
            hp_pending R0 L mh it = insert x (hp_pending R0 L mh it'))"
proof (induction r it rule: trieiter_hammingpairs_next.induct)
  case (1 r it)
  let ?R = "root_node r"
  note ni = "1.prems"(1) and L = "1.prems"(2) and mh = "1.prems"(3)
  from "1.prems"(4) have cfg: "maxhd it = mh" "target_depth it = int L"
    and fi: "flags_inv R0 L ?R (stack it)"
    and un: "\<forall>s\<in>set (states it). s_node s \<noteq> [] \<longrightarrow> \<not> expl ?R (s_node s)"
    unfolding hp_inv_def by blast+
  from "1.prems"(4) obtain q where q: "q \<notin> set (stack it)"
    "states it \<noteq> [] \<longrightarrow> item_at_depth R0 L q"
    and ti: "trav_inv R0 q (path_key R0 q) L mh (states it)"
    unfolding hp_inv_def by blast
  note fD = flags_invD[OF fi]
  show ?case
  proof (cases "states it")
    case Nil
    note pop = pop_state_Nil[OF Nil]
    show ?thesis
    proof (cases "stack it")
      case stkNil: Nil
      have "trieiter_hammingpairs_next r it = Some (None, r, it)"
        using pop stkNil by (simp add: trieiter_hammingpairs_next.simps[of r it])
      moreover have "hp_pending R0 L mh it = {}"
        using Nil stkNil by (simp add: hp_pending_def)
      ultimately show ?thesis using "1.prems"(4) by simp
    next
      case (Cons q' rest)
      from fD(3)[of q'] Cons have tq: "item_at_depth R0 L q'" by simp
      from item_at_depth_key[OF ni tq fD(1)] obtain qn where
        qn: "node_at ?R q' = Some qn" by blast
      let ?r1 = "r\<lparr>root_node := node_upd set_explored q' ?R\<rparr>"
      let ?it1 = "trieiter_push_state (it\<lparr>stack := rest\<rparr>) [] q' 0 0"
      let ?s0 = "\<lparr>s_node = [], s_query = q', s_hd = 0, s_depth = 0\<rparr>"
      have st1: "states ?it1 = [?s0]" "stack ?it1 = rest" "maxhd ?it1 = mh"
        "target_depth ?it1 = int L"
        using Nil cfg by (simp_all add: trieiter_push_state_def)
      have id1: "iter_ident ?it1 = iter_ident it"
        by (simp add: trieiter_push_state_def iter_ident_def)
      have fi1: "flags_inv R0 L (root_node ?r1) (stack ?it1)"
        using flags_inv_pop_query[of R0 L ?R q' rest] fi Cons st1(2) by simp
      have nq: "q' \<notin> set rest" using fD(2) Cons by simp
      have ti1: "trav_inv R0 q' (path_key R0 q') L mh [?s0]"
        using mh by (simp add: trav_inv_def state_ok_def incomparable_def)
      have inv1: "hp_inv R0 L mh (root_node ?r1) ?it1"
      proof (rule hp_invI[where q = q'])
        show "maxhd ?it1 = mh" "target_depth ?it1 = int L" by fact+
        show "flags_inv R0 L (root_node ?r1) (stack ?it1)" by fact
        show "q' \<notin> set (stack ?it1)" using nq st1(2) by simp
        show "item_at_depth R0 L q'" by fact
        show "trav_inv R0 q' (path_key R0 q') L mh (states ?it1)" using ti1 st1(1) by simp
        fix s' assume "s' \<in> set (states ?it1)" "s_node s' \<noteq> []"
        then show "\<not> expl (root_node ?r1) (s_node s')" using st1(1) by simp
      qed
      from "1.IH"(1)[OF pop Cons qn ni L mh inv1] obtain res r' it' where
        ih: "trieiter_hammingpairs_next ?r1 ?it1 = Some (res, r', it')"
        "iter_ident it' = iter_ident ?it1" "hp_inv R0 L mh (root_node r') it'"
        "(case res of None \<Rightarrow> hp_pending R0 L mh ?it1 = {}
          | Some x \<Rightarrow> x \<notin> hp_pending R0 L mh it' \<and>
              hp_pending R0 L mh ?it1 = insert x (hp_pending R0 L mh it'))"
        by blast
      have "trieiter_hammingpairs_next r it = Some (res, r', it')"
        using ih(1) pop Cons qn by (simp add: trieiter_hammingpairs_next.simps[of r it])
      moreover have "hp_pending R0 L mh it = hp_pending R0 L mh ?it1"
        unfolding hp_pending_def st1 using Nil Cons by (simp add: pending_def)
      ultimately show ?thesis using ih id1 by (cases res) simp_all
    qed
  next
    case (Cons s srest)
    note pop = pop_state_Cons[OF Cons]
    let ?it1 = "it\<lparr>states := srest\<rparr>"
    let ?qk = "path_key R0 q"
    from q(2) Cons have tq: "item_at_depth R0 L q" by simp
    from item_at_depth_key[OF ni tq fD(1)] obtain qn where
      qn: "node_at ?R q = Some qn" "key (item qn) = Some ?qk" "length ?qk = L" by blast
    from ti Cons have inv: "trav_inv R0 q ?qk L mh (s # srest)" by simp
    then have sok: "state_ok R0 q ?qk L mh s"
      and inc: "incomparable (s_node s # map s_node srest)"
      and invr: "trav_inv R0 q ?qk L mh srest"
      by (auto simp: trav_inv_def dest: incomparable_tl)
    from sok obtain n0 where n0: "node_at R0 (s_node s) = Some n0"
      by (auto simp: state_ok_def)
    from same_nodes_at[OF fD(1) n0] obtain n where n: "node_at ?R (s_node s) = Some n"
      "item n = item n0" "map ch (child n) = map ch (child n0)" by blast
    from sok have sd: "s_depth s = int (length (s_node s))" "length (s_node s) \<le> L"
      and sq: "s_query s = q"
      and hd: "s_hd s = int (hamming (path_key R0 (s_node s)) ?qk)" "s_hd s \<le> mh"
      by (simp_all add: state_ok_def)
    have td1: "target_depth ?it1 = int L" "maxhd ?it1 = mh" "stack ?it1 = stack it"
      using cfg by simp_all
    have id1: "iter_ident ?it1 = iter_ident it" by (simp add: iter_ident_def)
    let ?T = "hp_target R0 L mh (stack it) ?qk"
    let ?P = "pending ?T R0 q ?qk"
    let ?F = "future R0 L mh (stack it)"
    have Pit: "hp_pending R0 L mh it = ?P [s] \<union> ?P srest \<union> ?F"
      using hp_pending_eq[OF ti refl] Cons pending_Cons[of ?T R0 q ?qk s srest] by simp
    have P1: "hp_pending R0 L mh ?it1 = ?P srest \<union> ?F"
      using hp_pending_eq[of R0 q ?qk L mh ?it1] invr by simp
    have T1: "\<forall>t. ?T t \<longrightarrow> length t = L \<and> node_at R0 t \<noteq> None"
      by (auto simp: hp_target_def item_at_depth_def)
    have T2: "\<forall>t. ?T t \<longrightarrow> int (hamming (path_key R0 t) ?qk) \<le> mh"
      by (simp add: hp_target_def)
    have vs: "node_at ?R (s_node s) \<noteq> None" using n(1) by simp
    have unr: "\<And>s'. s' \<in> set srest \<Longrightarrow> s_node s' \<noteq> [] \<Longrightarrow>
        \<not> expl ?R (s_node s') \<and> s_node s' \<noteq> s_node s"
    proof -
      fix s' assume s': "s' \<in> set srest" "s_node s' \<noteq> []"
      then have "s_node s' \<in> set (map s_node srest)" by simp
      moreover from inc have "s_node s \<notin> set (map s_node srest)"
        unfolding incomparable_def by (simp del: set_map)
      ultimately have "s_node s' \<noteq> s_node s" by metis
      moreover from un Cons s' have "\<not> expl ?R (s_node s')" by simp
      ultimately show "\<not> expl ?R (s_node s') \<and> s_node s' \<noteq> s_node s" by simp
    qed
    show ?thesis
    proof (cases "s_depth s = target_depth ?it1")
      case True
      with sd td1 have len: "length (s_node s) = L" by simp
      have leaf: "?P [s] = (if ?T (s_node s) then {hd_result R0 q ?qk (s_node s)} else {})"
        by (rule pending_leaf[where L = L]) (simp_all add: T1 len)
      show ?thesis
      proof (cases "key (item n) = None")
        case nokey: True
        let ?r1 = "r\<lparr>root_node := node_upd set_explored (s_node s) ?R\<rparr>"
        have nT: "\<not> ?T (s_node s)"
          using n0 n(2) nokey by (simp add: hp_target_def item_at_depth_def)
        have below: "\<forall>t. prefix (s_node s) t \<and> item_at_depth R0 L t \<longrightarrow> t \<notin> set (stack it)"
        proof (intro allI impI)
          fix t assume a: "prefix (s_node s) t \<and> item_at_depth R0 L t"
          then have "length t = L" by (simp add: item_at_depth_def)
          with a len have "t = s_node s" using prefix_same_length[of "s_node s" t] by simp
          with a n0 n(2) nokey show "t \<notin> set (stack it)" by (simp add: item_at_depth_def)
        qed
        have fi1: "flags_inv R0 L (root_node ?r1) (stack ?it1)"
          using flags_inv_mark[OF fi _ below] n0 by simp
        have inv1: "hp_inv R0 L mh (root_node ?r1) ?it1"
        proof (rule hp_invI[where q = q])
          show "maxhd ?it1 = mh" "target_depth ?it1 = int L" by fact+
          show "flags_inv R0 L (root_node ?r1) (stack ?it1)" by fact
          show "q \<notin> set (stack ?it1)" using q(1) by simp
          show "item_at_depth R0 L q" by fact
          show "trav_inv R0 q ?qk L mh (states ?it1)" using invr by simp
          fix s' assume "s' \<in> set (states ?it1)" "s_node s' \<noteq> []"
          then have "s' \<in> set srest" "s_node s' \<noteq> []" by simp_all
          from unr[OF this] show "\<not> expl (root_node ?r1) (s_node s')"
            by (simp add: expl_upd[OF vs])
        qed
        from "1.IH"(2)[OF pop refl n(1) True nokey ni L mh inv1] obtain res r' it' where
          ih: "trieiter_hammingpairs_next ?r1 ?it1 = Some (res, r', it')"
          "iter_ident it' = iter_ident ?it1" "hp_inv R0 L mh (root_node r') it'"
          "(case res of None \<Rightarrow> hp_pending R0 L mh ?it1 = {}
            | Some x \<Rightarrow> x \<notin> hp_pending R0 L mh it' \<and>
                hp_pending R0 L mh ?it1 = insert x (hp_pending R0 L mh it'))"
          by blast
        have "trieiter_hammingpairs_next r it = Some (res, r', it')"
          using ih(1) pop n(1) True nokey
          by (simp add: trieiter_hammingpairs_next.simps[of r it])
        moreover have "hp_pending R0 L mh it = hp_pending R0 L mh ?it1"
          using Pit P1 leaf nT by simp
        ultimately show ?thesis using ih id1 by (cases res) simp_all
      next
        case False
        let ?x = "triesearchresult_new (Some (s_query s)) (Some (s_node s)) (s_hd s)"
        have x: "?x = hd_result R0 q ?qk (s_node s)" by (simp add: hd_result_def sq hd)
        have ne: "s_node s \<noteq> []" using len L by auto
        have nex: "\<not> expl ?R (s_node s)" using un Cons ne by simp
        have iad: "item_at_depth R0 L (s_node s)"
          using n0 n(2) False len by (simp add: item_at_depth_def)
        have "s_node s \<in> set (stack it)" using fD(5)[OF iad] nex by blast
        with iad hd have Ts: "?T (s_node s)" by (simp add: hp_target_def)
        have "trieiter_hammingpairs_next r it = Some (Some ?x, r, ?it1)"
          using pop n(1) True False by (auto simp: trieiter_hammingpairs_next.simps[of r it])
        moreover have "?x \<notin> hp_pending R0 L mh ?it1"
        proof
          assume "?x \<in> hp_pending R0 L mh ?it1"
          with P1 have "?x \<in> ?P srest \<or> ?x \<in> ?F" by simp
          then show False
          proof
            assume "?x \<in> ?P srest"
            with pending_fresh[OF inc, of R0 q ?qk ?T] x show False by simp
          next
            assume "?x \<in> ?F"
            from future_query[OF this] q(1) sq show False
              by (auto simp: triesearchresult_new_def)
          qed
        qed
        moreover have "hp_pending R0 L mh it = insert ?x (hp_pending R0 L mh ?it1)"
          using Pit P1 leaf Ts x by simp
        moreover have "hp_inv R0 L mh ?R ?it1"
        proof (rule hp_invI[where q = q])
          show "maxhd ?it1 = mh" "target_depth ?it1 = int L" by fact+
          show "flags_inv R0 L ?R (stack ?it1)" using fi by simp
          show "q \<notin> set (stack ?it1)" using q(1) by simp
          show "item_at_depth R0 L q" by fact
          show "trav_inv R0 q ?qk L mh (states ?it1)" using invr by simp
          fix s' assume "s' \<in> set (states ?it1)" "s_node s' \<noteq> []"
          then have "s' \<in> set srest" "s_node s' \<noteq> []" by simp_all
          from unr[OF this] show "\<not> expl ?R (s_node s')" by simp
        qed
        ultimately show ?thesis using id1 by simp
      qed
    next
      case False
      with sd td1 have len: "length (s_node s) < L" by simp
      let ?b = "?qk ! length (s_node s)"
      have qb: "query_byte r (s_query s) (s_depth s) = Some ?b"
        unfolding sq sd(1) using query_byte_in_key[OF qn(1,2)] len qn(3) by simp
      from hammingpairs_push_children_states[OF qb, of "child n" 0 "child n" ?it1 0 0] td1(2)
      obtain it2 where it2: "hammingpairs_push_children r ?it1 s (child n) 0 0 0 =
          Some (it2, int (length (child n)), int (length (filter explored (child n))))"
        "states it2 = rev (pushed explored s ?b mh 0 (child n)) @ srest"
        "iter_config it2 = iter_config it"
        by auto
      let ?all = "\<forall>c\<in>set (child n). explored c"
      let ?r1 = "if int (length (child n)) = int (length (filter explored (child n)))
          then r\<lparr>root_node := node_upd set_explored (s_node s) ?R\<rparr> else r"
      have rr: "root_node ?r1 = (if ?all then node_upd set_explored (s_node s) ?R else ?R)"
        using length_filter_eq_iff[of explored "child n"] by auto
      have inv2: "trav_inv R0 q ?qk L mh (states it2)"
        unfolding it2(2) by (rule trav_inv_pushed[OF inv n0 len _ n(3)]) (simp add: qn(3))
      have cfg2: "maxhd it2 = mh" "target_depth it2 = int L" "stack it2 = stack it"
        using it2(3) cfg by (simp_all add: iter_config_def)
      have id2: "iter_ident it2 = iter_ident it" by (rule iter_ident_config[OF it2(3)])
      have cj: "\<And>j. j < length (child n) \<Longrightarrow>
          node_at ?R (s_node s @ [j]) = Some (child n ! j)"
        using n(1) by (simp add: node_at_append)
      have TE: "\<forall>j<length (child n). explored (child n ! j) \<longrightarrow>
          (\<forall>t. ?T t \<longrightarrow> \<not> prefix (s_node s @ [j]) t)"
      proof (intro allI impI notI)
        fix j t assume j: "j < length (child n)" and e: "explored (child n ! j)"
          and t: "?T t" and p: "prefix (s_node s @ [j]) t"
        from cj[OF j] e have "expl ?R (s_node s @ [j])" by (simp add: expl_def)
        from fD(4)[OF this p] t show False by (simp add: hp_target_def)
      qed
      have "?P [s] = ?P (pushed explored s ?b mh 0 (child n))"
        by (rule pending_pushed[OF T1 T2 TE sok n0 len _ n(3)]) (simp add: qn(3))
      then have PE: "hp_pending R0 L mh it = hp_pending R0 L mh it2"
        using Pit hp_pending_eq[OF inv2 refl] it2(2) cfg2(3) by (simp add: pending_append)
      have fi1: "flags_inv R0 L (root_node ?r1) (stack it)"
      proof (cases ?all)
        case True
        have below: "\<forall>t. prefix (s_node s) t \<and> item_at_depth R0 L t \<longrightarrow> t \<notin> set (stack it)"
        proof (intro allI impI)
          fix t assume a: "prefix (s_node s) t \<and> item_at_depth R0 L t"
          then obtain d where d: "t = s_node s @ d" by (auto simp: prefix_def)
          from a have lt: "length t = L" and vt: "node_at R0 t \<noteq> None"
            by (auto simp: item_at_depth_def)
          from d lt len obtain j d' where d': "d = j # d'" by (cases d) auto
          from vt d d' n0 have "j < length (child n0)"
            by (auto simp: node_at_append split: if_splits)
          with n(3) have j: "j < length (child n)" by (metis length_map)
          with True have "explored (child n ! j)" by simp
          with cj[OF j] have "expl ?R (s_node s @ [j])" by (simp add: expl_def)
          moreover have "prefix (s_node s @ [j]) t" using d d' by (simp add: prefix_def)
          ultimately show "t \<notin> set (stack it)" using fD(4) a by blast
        qed
        from flags_inv_mark[OF fi _ below] n0 True show ?thesis unfolding rr by simp
      next
        case False
        with fi show ?thesis unfolding rr by auto
      qed
      have ex1: "\<And>p. p \<noteq> s_node s \<Longrightarrow> expl (root_node ?r1) p \<longleftrightarrow> expl ?R p"
        unfolding rr by (simp add: expl_upd[OF vs])
      have inv1: "hp_inv R0 L mh (root_node ?r1) it2"
      proof (rule hp_invI[where q = q])
        show "maxhd it2 = mh" "target_depth it2 = int L" by fact+
        show "flags_inv R0 L (root_node ?r1) (stack it2)" using fi1 cfg2(3) by simp
        show "q \<notin> set (stack it2)" using q(1) cfg2(3) by simp
        show "item_at_depth R0 L q" by fact
        show "trav_inv R0 q ?qk L mh (states it2)" by fact
        fix s' assume s': "s' \<in> set (states it2)" "s_node s' \<noteq> []"
        from s'(1) it2(2) consider (new) "s' \<in> set (pushed explored s ?b mh 0 (child n))"
          | (old) "s' \<in> set srest" by auto
        then show "\<not> expl (root_node ?r1) (s_node s')"
        proof cases
          case new
          then obtain j where j: "j < length (child n)" "s_node s' = s_node s @ [j]"
            "\<not> explored (child n ! j)" by (auto simp: set_pushed)
          with cj[OF j(1)] have "\<not> expl ?R (s_node s')" by (simp add: expl_def)
          moreover have "s_node s' \<noteq> s_node s" using j(2) by simp
          ultimately show ?thesis using ex1 by simp
        next
          case old
          from unr[OF old s'(2)] show ?thesis using ex1 by simp
        qed
      qed
      from "1.IH"(3)[OF pop refl n(1) False it2(1) refl refl ni L mh inv1]
      obtain res r' it' where
        ih: "trieiter_hammingpairs_next ?r1 it2 = Some (res, r', it')"
        "iter_ident it' = iter_ident it2" "hp_inv R0 L mh (root_node r') it'"
        "(case res of None \<Rightarrow> hp_pending R0 L mh it2 = {}
          | Some x \<Rightarrow> x \<notin> hp_pending R0 L mh it' \<and>
              hp_pending R0 L mh it2 = insert x (hp_pending R0 L mh it'))"
        by blast
      have "trieiter_hammingpairs_next r it = Some (res, r', it')"
        using ih(1) pop n(1) False it2(1)
        by (simp add: trieiter_hammingpairs_next.simps[of r it])
      with ih id2 PE show ?thesis by (cases res) simp_all
    qed
  qed
qed

definition hp_iter_inv ::
  "TrieRoot \<Rightarrow> TrieNode \<Rightarrow> nat \<Rightarrow> int \<Rightarrow> TrieRoot \<Rightarrow> TrieIter \<Rightarrow> bool" where
  "hp_iter_inv r0 R0 L mh r it =
     (r = r0\<lparr>root_node := root_node r\<rparr> \<and> dirty_iter r0 = Some (self it) \<and>
      iter_ident it = (self it, True, state_id r0, E_SUCCESS, NEXT_hammingpairs) \<and>
      hp_inv R0 L mh (root_node r) it)"

lemma trieiter_next_dirty:
  "trie_state_id it = state_id r \<Longrightarrow> dirty_iter r = Some (self it) \<Longrightarrow>
   next_func it = NEXT_hammingpairs \<Longrightarrow>
   trieiter_next r it = trieiter_hammingpairs_next r it"
  by (simp add: trieiter_next_def)

lemma hammingpairs_exhaust:
  assumes ni: "node_invar [] R0" and L: "0 < L" and mh: "0 \<le> mh"
    and inv: "hp_iter_inv r0 R0 L mh r it"
  shows "\<exists>rs r' it'. trieiter_exhaust r it = Some (rs, r', it') \<and> distinct rs \<and>
     set rs = hp_pending R0 L mh it \<and>
     (r' = r0\<lparr>root_node := root_node r'\<rparr> \<and>
      trie_reset (root_node r') = trie_reset R0 \<and> errcode it' = E_SUCCESS)"
proof -
  let ?P = "\<lambda>r1 it1. hp_pending R0 L mh it1"
  let ?Q = "\<lambda>r' it'. r' = r0\<lparr>root_node := root_node r'\<rparr> \<and>
      trie_reset (root_node r') = trie_reset R0 \<and> errcode it' = E_SUCCESS"
  have step: "\<And>r1 it1. hp_iter_inv r0 R0 L mh r1 it1 \<Longrightarrow>
      \<exists>res r' it'. trieiter_next r1 it1 = Some (res, r', it') \<and>
        (case res of
           None \<Rightarrow> ?P r1 it1 = {} \<and> ?Q r' it'
         | Some x \<Rightarrow> hp_iter_inv r0 R0 L mh r' it' \<and> x \<notin> ?P r' it' \<and>
             ?P r1 it1 = insert x (?P r' it'))"
  proof -
    fix r1 it1 assume a: "hp_iter_inv r0 R0 L mh r1 it1"
    then have r1: "r1 = r0\<lparr>root_node := root_node r1\<rparr>"
      and di: "dirty_iter r0 = Some (self it1)"
      and id: "iter_ident it1 = (self it1, True, state_id r0, E_SUCCESS, NEXT_hammingpairs)"
      and hi: "hp_inv R0 L mh (root_node r1) it1"
      by (simp_all add: hp_iter_inv_def)
    from hammingpairs_next_step[OF ni L mh hi] obtain res r' it' where
      nx: "trieiter_hammingpairs_next r1 it1 = Some (res, r', it')" and
      id': "iter_ident it' = iter_ident it1" and
      hi': "hp_inv R0 L mh (root_node r') it'" and
      c: "(case res of
            None \<Rightarrow> ?P r1 it1 = {}
          | Some x \<Rightarrow> x \<notin> ?P r' it' \<and> ?P r1 it1 = insert x (?P r' it'))"
      by blast
    have s1: "state_id r1 = state_id r0" "dirty_iter r1 = dirty_iter r0"
      by (subst r1, simp)+
    from id have f: "trie_state_id it1 = state_id r0" "next_func it1 = NEXT_hammingpairs"
      "errcode it1 = E_SUCCESS"
      by (simp_all add: iter_ident_def)
    have tn: "trieiter_next r1 it1 = Some (res, r', it')"
      using nx trieiter_next_dirty[of it1 r1] f s1 di by simp
    from hammingpairs_next_fields[OF nx] have "r' = r1\<lparr>root_node := root_node r'\<rparr>" .
    then have "r' = r0\<lparr>root_node := root_node r1\<rparr>\<lparr>root_node := root_node r'\<rparr>"
      using r1 by simp
    then have r': "r' = r0\<lparr>root_node := root_node r'\<rparr>" by simp
    from id' id have sf: "self it' = self it1" by (simp add: iter_ident_def)
    from hi' have tr: "trie_reset (root_node r') = trie_reset R0"
      unfolding hp_inv_def flags_inv_def by blast
    have ec: "errcode it' = E_SUCCESS" using id' f(3) by (simp add: iter_ident_def)
    have "hp_iter_inv r0 R0 L mh r' it'"
      unfolding hp_iter_inv_def using r' di id id' sf hi' by simp
    with tn c r' tr ec
    show "\<exists>res r' it'. trieiter_next r1 it1 = Some (res, r', it') \<and>
        (case res of
           None \<Rightarrow> ?P r1 it1 = {} \<and> ?Q r' it'
         | Some x \<Rightarrow> hp_iter_inv r0 R0 L mh r' it' \<and> x \<notin> ?P r' it' \<and>
             ?P r1 it1 = insert x (?P r' it'))"
      by (cases res) auto
  qed
  from exhaust_collects[where Inv = "hp_iter_inv r0 R0 L mh" and P = ?P and Q = ?Q, OF step inv]
  show ?thesis by auto
qed

text \<open>\<open>a\<close> stands before \<open>b\<close> in a list.\<close>

fun before :: "'a list \<Rightarrow> 'a \<Rightarrow> 'a \<Rightarrow> bool" where
  "before [] a b = False"
| "before (x # xs) a b = ((x = a \<and> b \<in> set xs) \<or> before xs a b)"

lemma before_in: "before xs a b \<Longrightarrow> a \<in> set xs \<and> b \<in> set xs"
  by (induction xs) auto

lemma before_neq: "distinct xs \<Longrightarrow> before xs a b \<Longrightarrow> a \<noteq> b"
  by (induction xs) (auto dest: before_in)

lemma before_asym: "distinct xs \<Longrightarrow> before xs a b \<Longrightarrow> \<not> before xs b a"
  by (induction xs) (auto dest: before_in)

lemma before_total:
  "a \<in> set xs \<Longrightarrow> b \<in> set xs \<Longrightarrow> a \<noteq> b \<Longrightarrow> before xs a b \<or> before xs b a"
  by (induction xs) auto

lemma future_iff:
  "x \<in> future R L mh stk \<longleftrightarrow>
     (\<exists>q t. before stk q t \<and> item_at_depth R L t \<and>
        int (hamming (path_key R t) (path_key R q)) \<le> mh \<and>
        x = hd_result R q (path_key R q) t)"
proof (induction stk)
  case Nil
  then show ?case by simp
next
  case (Cons a stk)
  show ?case
    unfolding future.simps Un_iff Cons.IH before.simps
    by (auto simp: hp_target_def) blast+
qed


text \<open>
  \<^verbatim>\<open>trie_find_all_strings\<close> collects the item-bearing nodes at the given depth, each once.
\<close>

lemma item_at_depth_0: "item_at_depth n 0 t \<longleftrightarrow> t = [] \<and> key (item n) \<noteq> None"
  by (auto simp: item_at_depth_def)

lemma item_at_depth_Suc:
  "item_at_depth n (Suc d) t \<longleftrightarrow>
     (\<exists>j t'. t = j # t' \<and> j < length (child n) \<and> item_at_depth (child n ! j) d t')"
  by (cases t) (auto simp: item_at_depth_def)

lemma find_all_strings_set:
  "\<forall>d. depth = int d \<longrightarrow>
     set (trie_find_all_strings p n depth acc) = set acc \<union> {p @ t | t. item_at_depth n d t}"
  "\<forall>d cs0. depth' = int d \<and> cs = drop i cs0 \<longrightarrow>
     set (find_all_siblings p' cs i depth' acc') =
       set acc' \<union> {p' @ j # t | j t. i \<le> j \<and> j < length cs0 \<and> item_at_depth (cs0 ! j) d t}"
proof (induction p n depth acc and p' cs i depth' acc'
    rule: trie_find_all_strings_find_all_siblings.induct)
  case (1 p it cs c f depth targets)
  show ?case
  proof (intro allI impI)
    fix d assume d: "depth = int d"
    show "set (trie_find_all_strings p (TrieNode it cs c f) depth targets) =
        set targets \<union> {p @ t | t. item_at_depth (TrieNode it cs c f) d t}"
    proof (cases d)
      case 0
      with d show ?thesis by (auto simp: item_at_depth_0)
    next
      case (Suc d')
      with d have pos: "depth > 0" "depth - 1 = int d'" "\<not> (depth = 0 \<and> key it \<noteq> None)"
        by simp_all
      from "1.IH"[OF pos(3,1)] have ih: "\<And>d cs0. depth - 1 = int d \<Longrightarrow> cs = drop 0 cs0 \<Longrightarrow>
          set (find_all_siblings p cs 0 (depth - 1) targets) =
          set targets \<union> {p @ j # t | j t. 0 \<le> j \<and> j < length cs0 \<and> item_at_depth (cs0 ! j) d t}"
        by blast
      have e: "\<And>x. (\<exists>j t. x = p @ j # t \<and> j < length cs \<and> item_at_depth (cs ! j) d' t) \<longleftrightarrow>
          (\<exists>t. x = p @ t \<and> (\<exists>j t'. t = j # t' \<and> j < length cs \<and> item_at_depth (cs ! j) d' t'))"
        by blast
      have "{p @ j # t | j t. 0 \<le> j \<and> j < length cs \<and> item_at_depth (cs ! j) d' t} =
          {p @ t | t. item_at_depth (TrieNode it cs c f) d t}"
        unfolding Suc item_at_depth_Suc by (simp add: e)
      with ih[OF pos(2), of cs] show ?thesis using pos by simp
    qed
  qed
next
  case (2 p i depth targets)
  then show ?case by auto
next
  case (3 p c cs i depth targets)
  show ?case
  proof (intro allI impI)
    fix d cs0 assume a: "depth = int d \<and> c # cs = drop i cs0"
    then have d: "depth = int d" and dr: "c # cs = drop i cs0" by simp_all
    from drop_eq_ConsD[OF dr]
    have i: "i < length cs0" and c: "c = cs0 ! i" and cs: "cs = drop (Suc i) cs0" by simp_all
    let ?acc = "trie_find_all_strings (p @ [i]) c depth targets"
    from "3.IH"(1) d have s1: "set ?acc = set targets \<union> {(p @ [i]) @ t | t. item_at_depth c d t}"
      by blast
    from "3.IH"(2) d cs
    have s2: "set (find_all_siblings p cs (Suc i) depth ?acc) =
        set ?acc \<union> {p @ j # t | j t. Suc i \<le> j \<and> j < length cs0 \<and> item_at_depth (cs0 ! j) d t}"
      by blast
    have "{p @ j # t | j t. i \<le> j \<and> j < length cs0 \<and> item_at_depth (cs0 ! j) d t} =
        {(p @ [i]) @ t | t. item_at_depth c d t} \<union>
        {p @ j # t | j t. Suc i \<le> j \<and> j < length cs0 \<and> item_at_depth (cs0 ! j) d t}"
      (is "?A = ?B \<union> ?C")
    proof (rule set_eqI)
      fix x
      have "\<And>j. i \<le> j \<longleftrightarrow> j = i \<or> Suc i \<le> j" by auto
      then show "x \<in> ?A \<longleftrightarrow> x \<in> ?B \<union> ?C" using i c by auto
    qed
    with s1 s2 show "set (find_all_siblings p (c # cs) i depth targets) =
        set targets \<union> {p @ j # t | j t. i \<le> j \<and> j < length cs0 \<and> item_at_depth (cs0 ! j) d t}"
      by (simp add: Un_assoc)
  qed
qed

lemma find_all_strings_distinct:
  "\<forall>d. depth = int d \<longrightarrow> distinct acc \<longrightarrow> (\<forall>x\<in>set acc. \<not> prefix p x) \<longrightarrow>
     distinct (trie_find_all_strings p n depth acc)"
  "\<forall>d cs0. depth' = int d \<and> cs = drop i cs0 \<longrightarrow> distinct acc' \<longrightarrow>
     (\<forall>x\<in>set acc'. \<forall>j. i \<le> j \<longrightarrow> \<not> prefix (p' @ [j]) x) \<longrightarrow>
     distinct (find_all_siblings p' cs i depth' acc')"
proof (induction p n depth acc and p' cs i depth' acc'
    rule: trie_find_all_strings_find_all_siblings.induct)
  case (1 p it cs c f depth targets)
  show ?case
  proof (intro allI impI)
    fix d assume d: "depth = int d" and dt: "distinct targets"
      and np: "\<forall>x\<in>set targets. \<not> prefix p x"
    show "distinct (trie_find_all_strings p (TrieNode it cs c f) depth targets)"
    proof (cases d)
      case 0
      from np have "p \<notin> set targets" by auto
      with 0 d dt show ?thesis by simp
    next
      case (Suc d')
      with d have pos: "depth > 0" "depth - 1 = int d'" "\<not> (depth = 0 \<and> key it \<noteq> None)"
        by simp_all
      have "\<forall>x\<in>set targets. \<forall>j. 0 \<le> j \<longrightarrow> \<not> prefix (p @ [j]) x"
        using np by (metis append_prefixD)
      moreover from "1.IH"[OF pos(3,1)] have "\<And>d cs0. depth - 1 = int d \<Longrightarrow> cs = drop 0 cs0 \<Longrightarrow>
          distinct targets \<Longrightarrow> \<forall>x\<in>set targets. \<forall>j. 0 \<le> j \<longrightarrow> \<not> prefix (p @ [j]) x \<Longrightarrow>
          distinct (find_all_siblings p cs 0 (depth - 1) targets)"
        by blast
      ultimately have "distinct (find_all_siblings p cs 0 (depth - 1) targets)"
        using pos(2) dt by simp
      then show ?thesis using pos by simp
    qed
  qed
next
  case (2 p i depth targets)
  then show ?case by simp
next
  case (3 p c cs i depth targets)
  show ?case
  proof (intro allI impI)
    fix d cs0 assume a: "depth = int d \<and> c # cs = drop i cs0" and dt: "distinct targets"
      and np: "\<forall>x\<in>set targets. \<forall>j. i \<le> j \<longrightarrow> \<not> prefix (p @ [j]) x"
    then have d: "depth = int d" and dr: "c # cs = drop i cs0" by simp_all
    from drop_eq_ConsD[OF dr]
    have i: "i < length cs0" and c: "c = cs0 ! i" and cs: "cs = drop (Suc i) cs0" by simp_all
    let ?acc = "trie_find_all_strings (p @ [i]) c depth targets"
    from np have "\<forall>x\<in>set targets. \<not> prefix (p @ [i]) x" by simp
    with "3.IH"(1) d dt have d1: "distinct ?acc" by blast
    from find_all_strings_set(1)[of depth "p @ [i]" c targets] d
    have s1: "set ?acc = set targets \<union> {(p @ [i]) @ t | t. item_at_depth c d t}" by blast
    have "\<forall>x\<in>set ?acc. \<forall>j. Suc i \<le> j \<longrightarrow> \<not> prefix (p @ [j]) x"
    proof (intro ballI allI impI)
      fix x j assume x: "x \<in> set ?acc" and j: "Suc i \<le> j"
      from x s1 consider "x \<in> set targets" | t where "x = (p @ [i]) @ t" by auto
      then show "\<not> prefix (p @ [j]) x"
      proof cases
        case 1
        with np j show ?thesis by simp
      next
        case 2
        with j show ?thesis by (auto simp: prefix_def)
      qed
    qed
    with "3.IH"(2) d cs d1 have "distinct (find_all_siblings p cs (Suc i) depth ?acc)" by blast
    then show "distinct (find_all_siblings p (c # cs) i depth targets)" by simp
  qed
qed

lemma find_all_strings_root:
  "distinct (trie_find_all_strings [] R (int L) []) \<and>
   set (trie_find_all_strings [] R (int L) []) = {t. item_at_depth R L t}"
  using find_all_strings_set(1)[of "int L" "[]" R "[]"]
    find_all_strings_distinct(1)[of "int L" "[]" "[]" R] by simp

lemma flags_clear_node_at: "flags_clear n \<Longrightarrow> node_at n p = Some m \<Longrightarrow> flags_clear m"
proof (induction p arbitrary: n)
  case Nil
  then show ?case by simp
next
  case (Cons i p)
  from Cons.prems(2) have i: "i < length (child n)" and m: "node_at (child n ! i) p = Some m"
    by (auto split: if_splits)
  from Cons.prems(1) i have "flags_clear (child n ! i)" by (cases n) simp
  from Cons.IH[OF this m] show ?case .
qed

lemma flags_clear_not_expl: "flags_clear R \<Longrightarrow> \<not> expl R p"
proof (cases "node_at R p")
  case None
  then show ?thesis by (simp add: expl_def)
next
  case (Some m)
  assume "flags_clear R"
  from flags_clear_node_at[OF this Some] have "flags m = 0" by (cases m) simp
  with Some show ?thesis by (simp add: expl_def explored_def TRIE_EXPLORED_def)
qed

lemma hp_inv_initial:
  assumes "flags_clear R" "trie_reset R = trie_reset R0"
    and "states it = []" "stack it = trie_find_all_strings [] R0 (int L) []"
    and "maxhd it = mh" "target_depth it = int L"
  shows "hp_inv R0 L mh R it"
proof (rule hp_invI[where q = "replicate (Suc L) 0"])
  note fr = find_all_strings_root[of R0 L]
  show "maxhd it = mh" "target_depth it = int L" by fact+
  show "flags_inv R0 L R (stack it)"
    unfolding flags_inv_def assms(4) using fr assms(2) flags_clear_not_expl[OF assms(1)]
    by blast
  show "replicate (Suc L) 0 \<notin> set (stack it)"
    unfolding assms(4) using fr by (simp add: item_at_depth_def)
  show "trav_inv R0 (replicate (Suc L) 0) (path_key R0 (replicate (Suc L) 0)) L mh (states it)"
    using assms(3) by (simp add: trav_inv_def incomparable_def)
  show "states it \<noteq> [] \<Longrightarrow> item_at_depth R0 L (replicate (Suc L) 0)"
    using assms(3) by simp
  fix s assume "s \<in> set (states it)"
  with assms(3) show "\<not> expl R (s_node s)" by simp
qed

lemma item_ptr_key:
  assumes "node_invar [] (root_node r)" "item_at_depth (root_node r) L t"
  shows "read_key r (Some t) = Some (path_key (root_node r) t)"
    and "path_key (root_node r) t \<in> stored_keys r"
    and "length (path_key (root_node r) t) = L"
proof -
  from assms(2) obtain m where m: "node_at (root_node r) t = Some m" "key (item m) \<noteq> None"
    and l: "length t = L" by (auto simp: item_at_depth_def)
  from read_item_ptr(2)[OF assms(1) m]
  show "read_key r (Some t) = Some (path_key (root_node r) t)" .
  have "trie_has_key (Some r) (path_key (root_node r) t)"
    unfolding trie_has_key_iff_ptr[OF assms(1)] using m by blast
  then show "path_key (root_node r) t \<in> stored_keys r" by (simp add: stored_keys_def)
  from node_at_length_path_key[OF m(1)] l show "length (path_key (root_node r) t) = L" by simp
qed

lemma key_item_ptr:
  assumes "node_invar [] (root_node r)" "k \<in> stored_keys r"
  shows "\<exists>t. item_at_depth (root_node r) (length k) t \<and> path_key (root_node r) t = k"
proof -
  from assms(2) have "trie_has_key (Some r) k" by (simp add: stored_keys_def)
  then obtain t m where t: "node_at (root_node r) t = Some m" "key (item m) \<noteq> None"
    "path_key (root_node r) t = k"
    unfolding trie_has_key_iff_ptr[OF assms(1)] by blast
  from node_at_length_path_key[OF t(1)] t(3) have "length t = length k" by simp
  with t show ?thesis unfolding item_at_depth_def by blast
qed

lemma item_ptr_inj:
  assumes "node_invar [] R" "item_at_depth R L t" "item_at_depth R L t'"
    "path_key R t = path_key R t'"
  shows "t = t'"
proof -
  from assms(2,3) obtain m m' where "node_at R t = Some m" "node_at R t' = Some m'"
    by (auto simp: item_at_depth_def)
  from path_key_inj[OF assms(1) this assms(4)] show ?thesis .
qed

lemma length_filter_single:
  assumes "distinct rs" "x0 \<in> set rs" "M x0" "\<And>x. x \<in> set rs \<Longrightarrow> M x \<Longrightarrow> x = x0"
  shows "length (filter M rs) = 1"
proof -
  have s: "set (filter M rs) = {x0}"
  proof (rule set_eqI)
    fix x
    show "x \<in> set (filter M rs) \<longleftrightarrow> x \<in> {x0}"
    proof
      assume "x \<in> set (filter M rs)"
      then have "x \<in> set rs" "M x" by simp_all
      from assms(4)[OF this] show "x \<in> {x0}" by simp
    next
      assume "x \<in> {x0}"
      then have "x = x0" by simp
      with assms(2,3) show "x \<in> set (filter M rs)" by simp
    qed
  qed
  have d: "distinct (filter M rs)" using assms(1) by simp
  have "length (filter M rs) = card (set (filter M rs))"
    by (rule sym) (rule distinct_card[OF d])
  also have "\<dots> = card {x0}" by (simp only: s)
  finally show ?thesis by simp
qed

lemma pair_once:
  assumes ni: "node_invar [] (root_node r)"
    and rs: "distinct rs" "set rs = future (root_node r) L h stk"
    and stk: "distinct stk" "\<forall>t\<in>set stk. item_at_depth (root_node r) L t"
    and bf: "before stk pa pb"
    and hm: "int (hamming (path_key (root_node r) pa) (path_key (root_node r) pb)) \<le> h"
  shows "length (filter (\<lambda>res.
       (read_key r (r_query res) = Some (path_key (root_node r) pa) \<and>
        read_key r (r_target res) = Some (path_key (root_node r) pb)) \<or>
       (read_key r (r_query res) = Some (path_key (root_node r) pb) \<and>
        read_key r (r_target res) = Some (path_key (root_node r) pa))) rs) = 1"
    (is "length (filter ?M rs) = 1")
proof -
  let ?R = "root_node r"
  let ?x0 = "hd_result ?R pa (path_key ?R pa) pb"
  from before_in[OF bf] stk(2) have ia: "item_at_depth ?R L pa" and ib: "item_at_depth ?R L pb"
    by simp_all
  have "?x0 \<in> future ?R L h stk"
    unfolding future_iff using bf ib hm by (auto simp: hamming_commute)
  then have x0: "?x0 \<in> set rs" using rs(2) by simp
  have M0: "?M ?x0"
    using item_ptr_key(1)[OF ni ia] item_ptr_key(1)[OF ni ib]
    by (simp add: hd_result_def triesearchresult_new_def)
  have uniq: "\<And>x. x \<in> set rs \<Longrightarrow> ?M x \<Longrightarrow> x = ?x0"
  proof -
    fix x assume x: "x \<in> set rs" and M: "?M x"
    from x rs(2) have "x \<in> future ?R L h stk" by simp
    from this[unfolded future_iff] obtain q t where
      qt: "before stk q t" "x = hd_result ?R q (path_key ?R q) t" by blast
    from before_in[OF qt(1)] stk(2) have iq: "item_at_depth ?R L q"
      and it: "item_at_depth ?R L t" by simp_all
    have rk: "read_key r (r_query x) = Some (path_key ?R q)"
      "read_key r (r_target x) = Some (path_key ?R t)"
      using item_ptr_key(1)[OF ni iq] item_ptr_key(1)[OF ni it] qt(2)
      by (simp_all add: hd_result_def triesearchresult_new_def)
    from M rk consider "path_key ?R q = path_key ?R pa \<and> path_key ?R t = path_key ?R pb"
      | "path_key ?R q = path_key ?R pb \<and> path_key ?R t = path_key ?R pa" by auto
    then show "x = ?x0"
    proof cases
      case 1
      with item_ptr_inj[OF ni iq ia] item_ptr_inj[OF ni it ib] have "q = pa" "t = pb"
        by simp_all
      with qt(2) show ?thesis by simp
    next
      case 2
      with item_ptr_inj[OF ni iq ib] item_ptr_inj[OF ni it ia] have "q = pb" "t = pa"
        by simp_all
      with qt(1) before_asym[OF stk(1) bf] show ?thesis by simp
    qed
  qed
  from length_filter_single[where M = ?M, OF rs(1) x0 M0 uniq] show ?thesis .
qed

lemma trie_reset_idem: "trie_reset (trie_reset n) = trie_reset n"
  by (rule trie_reset_clear[OF flags_clear_reset])

lemma hammingpairs_enumerates:
  assumes ni: "node_invar [] (root_node r)"
    and fc: "dirty_iter r = None \<longrightarrow> flags_clear (root_node r)"
    and L: "0 < L" and h: "0 \<le> h"
  shows "\<exists>it r1 rs r' it'.
     trieiter_hammingpairs (Some r) (int L) h addr = (Some it, Some r1) \<and>
     trieiter_exhaust r1 it = Some (rs, r', it') \<and> errcode it' = E_SUCCESS \<and>
     r' = r\<lparr>root_node := root_node r', dirty_iter := Some addr\<rparr> \<and>
     trie_reset (root_node r') = trie_reset (root_node r) \<and>
     (\<forall>res\<in>set rs. \<exists>a b.
        read_key r (r_query res) = Some a \<and> read_key r (r_target res) = Some b \<and>
        a \<in> stored_keys r \<and> b \<in> stored_keys r \<and> length a = L \<and> length b = L \<and> a \<noteq> b \<and>
        r_hd res = int (hamming a b) \<and> 0 < hamming a b \<and> int (hamming a b) \<le> h) \<and>
     (\<forall>a\<in>stored_keys r. \<forall>b\<in>stored_keys r.
        length a = L \<and> length b = L \<and> a \<noteq> b \<and> int (hamming a b) \<le> h \<longrightarrow>
        length (filter (\<lambda>res.
            (read_key r (r_query res) = Some a \<and> read_key r (r_target res) = Some b) \<or>
            (read_key r (r_query res) = Some b \<and> read_key r (r_target res) = Some a)) rs) = 1)"
proof -
  let ?R0 = "root_node r"
  let ?stk = "trie_find_all_strings [] ?R0 (int L) []"
  let ?r1 = "(if dirty_iter r \<noteq> None then r\<lparr>root_node := trie_reset ?R0\<rparr> else r)
      \<lparr>dirty_iter := Some addr\<rparr>"
  let ?it = "\<lparr>self = addr, states = [], capacity = 1, maxhd = h,
      target_depth = int L, len_query = int L, is_dirty = True,
      trie_state_id = state_id r, errcode = E_SUCCESS,
      stack = ?stk, next_func = NEXT_hammingpairs\<rparr>"
  have cr: "trieiter_hammingpairs (Some r) (int L) h addr = (Some ?it, Some ?r1)"
    using L h by (simp add: trieiter_hammingpairs_def trieiter_new_def)
  have fc1: "flags_clear (root_node ?r1)"
    using fc by (simp add: flags_clear_reset)
  have tr1: "trie_reset (root_node ?r1) = trie_reset ?R0"
    by (simp add: trie_reset_idem)
  have r1: "?r1 = r\<lparr>root_node := root_node ?r1, dirty_iter := Some addr\<rparr>" by simp
  have hi: "hp_inv ?R0 L h (root_node ?r1) ?it"
    by (rule hp_inv_initial[OF fc1 tr1]) simp_all
  have "hp_iter_inv ?r1 ?R0 L h ?r1 ?it"
    unfolding hp_iter_inv_def using hi by (simp add: iter_ident_def)
  from hammingpairs_exhaust[OF ni L h this] obtain rs r' it' where
    ex: "trieiter_exhaust ?r1 ?it = Some (rs, r', it')" and d: "distinct rs"
    and rs0: "set rs = hp_pending ?R0 L h ?it"
    and r': "r' = ?r1\<lparr>root_node := root_node r'\<rparr>"
    and tr: "trie_reset (root_node r') = trie_reset ?R0"
    and ec: "errcode it' = E_SUCCESS"
    by blast
  have rs: "set rs = future ?R0 L h ?stk" using rs0 by (simp add: hp_pending_def)
  note fr = find_all_strings_root[of ?R0 L]
  from fr have dstk: "distinct ?stk" and sstk: "\<forall>t\<in>set ?stk. item_at_depth ?R0 L t"
    by simp_all
  have r'': "r' = r\<lparr>root_node := root_node r', dirty_iter := Some addr\<rparr>"
    by (subst r') simp
  have c1: "\<forall>res\<in>set rs. \<exists>a b.
        read_key r (r_query res) = Some a \<and> read_key r (r_target res) = Some b \<and>
        a \<in> stored_keys r \<and> b \<in> stored_keys r \<and> length a = L \<and> length b = L \<and> a \<noteq> b \<and>
        r_hd res = int (hamming a b) \<and> 0 < hamming a b \<and> int (hamming a b) \<le> h"
  proof
    fix x assume "x \<in> set rs"
    with rs have "x \<in> future ?R0 L h ?stk" by simp
    from this[unfolded future_iff] obtain q t where bf: "before ?stk q t"
      and it: "item_at_depth ?R0 L t"
      and hm: "int (hamming (path_key ?R0 t) (path_key ?R0 q)) \<le> h"
      and x: "x = hd_result ?R0 q (path_key ?R0 q) t" by blast
    from before_in[OF bf] sstk have iq: "item_at_depth ?R0 L q" by simp
    from before_neq[OF dstk bf] have "q \<noteq> t" .
    with item_ptr_inj[OF ni iq it] have ne: "path_key ?R0 q \<noteq> path_key ?R0 t" by blast
    note kq = item_ptr_key[OF ni iq] and kt = item_ptr_key[OF ni it]
    have "hamming (path_key ?R0 q) (path_key ?R0 t) \<noteq> 0"
      using hamming_eq_0_iff[of "path_key ?R0 q" "path_key ?R0 t"] kq(3) kt(3) ne by simp
    then have pos: "0 < hamming (path_key ?R0 q) (path_key ?R0 t)" by simp
    have hc: "hamming (path_key ?R0 t) (path_key ?R0 q) = hamming (path_key ?R0 q) (path_key ?R0 t)"
      by (rule hamming_commute)
    have "read_key r (r_query x) = Some (path_key ?R0 q)"
      "read_key r (r_target x) = Some (path_key ?R0 t)"
      "r_hd x = int (hamming (path_key ?R0 q) (path_key ?R0 t))"
      using kq(1) kt(1) hc by (simp_all add: x hd_result_def triesearchresult_new_def)
    with kq(2,3) kt(2,3) ne pos hm hc
    show "\<exists>a b.
        read_key r (r_query x) = Some a \<and> read_key r (r_target x) = Some b \<and>
        a \<in> stored_keys r \<and> b \<in> stored_keys r \<and> length a = L \<and> length b = L \<and> a \<noteq> b \<and>
        r_hd x = int (hamming a b) \<and> 0 < hamming a b \<and> int (hamming a b) \<le> h"
      by (intro exI[of _ "path_key ?R0 q"] exI[of _ "path_key ?R0 t"]) simp
  qed
  have c2: "\<forall>a\<in>stored_keys r. \<forall>b\<in>stored_keys r.
        length a = L \<and> length b = L \<and> a \<noteq> b \<and> int (hamming a b) \<le> h \<longrightarrow>
        length (filter (\<lambda>res.
            (read_key r (r_query res) = Some a \<and> read_key r (r_target res) = Some b) \<or>
            (read_key r (r_query res) = Some b \<and> read_key r (r_target res) = Some a)) rs) = 1"
  proof (intro ballI impI)
    fix a b assume a: "a \<in> stored_keys r" and b: "b \<in> stored_keys r"
      and c: "length a = L \<and> length b = L \<and> a \<noteq> b \<and> int (hamming a b) \<le> h"
    from key_item_ptr[OF ni a] c obtain pa where
      pa: "item_at_depth ?R0 L pa" "path_key ?R0 pa = a" by auto
    from key_item_ptr[OF ni b] c obtain pb where
      pb: "item_at_depth ?R0 L pb" "path_key ?R0 pb = b" by auto
    from pa pb c have ne: "pa \<noteq> pb" by auto
    from pa(1) pb(1) fr have "pa \<in> set ?stk" "pb \<in> set ?stk" by simp_all
    from before_total[OF this ne] show
      "length (filter (\<lambda>res.
            (read_key r (r_query res) = Some a \<and> read_key r (r_target res) = Some b) \<or>
            (read_key r (r_query res) = Some b \<and> read_key r (r_target res) = Some a)) rs) = 1"
    proof
      assume bf: "before ?stk pa pb"
      from c pa(2) pb(2) have "int (hamming (path_key ?R0 pa) (path_key ?R0 pb)) \<le> h" by simp
      from pair_once[OF ni d rs dstk sstk bf this] show ?thesis
        unfolding pa(2) pb(2) .
    next
      assume bf: "before ?stk pb pa"
      from c pa(2) pb(2) have "int (hamming (path_key ?R0 pb) (path_key ?R0 pa)) \<le> h"
        by (simp add: hamming_commute)
      from pair_once[OF ni d rs dstk sstk bf this]
      have l: "length (filter (\<lambda>res.
            (read_key r (r_query res) = Some b \<and> read_key r (r_target res) = Some a) \<or>
            (read_key r (r_query res) = Some a \<and> read_key r (r_target res) = Some b)) rs) = 1"
        unfolding pa(2) pb(2) .
      have e: "(\<lambda>res.
            (read_key r (r_query res) = Some b \<and> read_key r (r_target res) = Some a) \<or>
            (read_key r (r_query res) = Some a \<and> read_key r (r_target res) = Some b)) =
          (\<lambda>res.
            (read_key r (r_query res) = Some a \<and> read_key r (r_target res) = Some b) \<or>
            (read_key r (r_query res) = Some b \<and> read_key r (r_target res) = Some a))"
        by (rule ext) (rule disj_commute)
      from l show ?thesis unfolding e .
    qed
  qed
  from cr ex ec r'' tr c1 c2 show ?thesis by blast
qed


text \<open>
  Claim C1. On a store that satisfies the invariant, for a key length \<open>L \<ge> 1\<close> and a bound
  \<open>h \<ge> 1\<close>, \<^verbatim>\<open>trieiter_hammingpairs\<close> returns an iterator, and calling \<^verbatim>\<open>trieiter_next\<close>
  until it returns NULL ends with the error code \<^verbatim>\<open>E_SUCCESS\<close> in a store that differs from
  the first in node flags and \<^verbatim>\<open>dirty_iter\<close> only. Every result carries two different
  stored keys \<open>a\<close> and \<open>b\<close> of length \<open>L\<close> as query and target, and its \<^verbatim>\<open>hd\<close> is their
  Hamming distance, which is between 1 and \<open>h\<close>. For every two different stored keys of
  length \<open>L\<close> within distance \<open>h\<close>, exactly one of the results returned carries the two,
  counting both orientations.
\<close>

theorem hammingpairs_yield_each_pair_once:
  assumes "trie_invar r" and "1 \<le> L" and "1 \<le> h"
  shows "\<exists>it r1 rs r' it'.
     trieiter_hammingpairs (Some r) (int L) h addr = (Some it, Some r1) \<and>
     trieiter_exhaust r1 it = Some (rs, r', it') \<and> trieiter_errcode it' = E_SUCCESS \<and>
     r' = r\<lparr>root_node := root_node r', dirty_iter := Some addr\<rparr> \<and>
     trie_reset (root_node r') = trie_reset (root_node r) \<and>
     (\<forall>res\<in>set rs. \<exists>a b.
        read_key r (r_query res) = Some a \<and> read_key r (r_target res) = Some b \<and>
        a \<in> stored_keys r \<and> b \<in> stored_keys r \<and> length a = L \<and> length b = L \<and> a \<noteq> b \<and>
        r_hd res = int (hamming a b) \<and> 0 < hamming a b \<and> int (hamming a b) \<le> h) \<and>
     (\<forall>a\<in>stored_keys r. \<forall>b\<in>stored_keys r.
        length a = L \<and> length b = L \<and> a \<noteq> b \<and> int (hamming a b) \<le> h \<longrightarrow>
        length (filter (\<lambda>res.
            (read_key r (r_query res) = Some a \<and> read_key r (r_target res) = Some b) \<or>
            (read_key r (r_query res) = Some b \<and> read_key r (r_target res) = Some a)) rs) = 1)"
proof -
  from assms(1) have ni: "node_invar [] (root_node r)"
    and fc: "dirty_iter r = None \<longrightarrow> flags_clear (root_node r)"
    by (simp_all add: trie_invar_def)
  from assms(2,3) have "0 < L" "0 \<le> h" by simp_all
  from hammingpairs_enumerates[OF ni fc this, of addr] show ?thesis
    unfolding trieiter_errcode_def .
qed

theorem hammingpairs_yield_each_pair_once_witness:
  "trie_invar store_a_b \<and> (1::nat) \<le> 1 \<and> (1::int) \<le> 1 \<and>
   (\<exists>it r1 rs r' it'.
     trieiter_hammingpairs (Some store_a_b) (int 1) 1 4 = (Some it, Some r1) \<and>
     trieiter_exhaust r1 it = Some (rs, r', it') \<and> trieiter_errcode it' = E_SUCCESS \<and>
     length (filter (\<lambda>res.
         (read_key store_a_b (r_query res) = Some ''a'' \<and>
          read_key store_a_b (r_target res) = Some ''b'') \<or>
         (read_key store_a_b (r_query res) = Some ''b'' \<and>
          read_key store_a_b (r_target res) = Some ''a'')) rs) = 1)"
proof -
  have h1: "trie_invar store_a_b"
    unfolding store_a_b_def by (rule trie_invar_apply_ops[OF trie_invar_new])
  have h2: "(1::nat) \<le> 1" by simp
  have h3: "(1::int) \<le> 1" by simp
  have ka: "''a'' \<in> stored_keys store_a_b" unfolding stored_keys_def mem_Collect_eq by code_simp
  have kb: "''b'' \<in> stored_keys store_a_b" unfolding stored_keys_def mem_Collect_eq by code_simp
  have hm: "length ''a'' = 1 \<and> length ''b'' = 1 \<and> ''a'' \<noteq> ''b'' \<and> int (hamming ''a'' ''b'') \<le> 1"
    by simp
  from hammingpairs_yield_each_pair_once[OF h1 h2 h3, of 4] ka kb hm h1 show ?thesis
    by (simp only: simp_thms) blast
qed

end
